theory Spec2Isabelle
  imports Main "HOL-Library.Multiset"
begin

section \<open>The indexed binary heap of \<open>src/util/heap.h\<close>\<close>

text \<open>
  The class \<open>heap<LT>\<close> keeps two integer vectors: \<open>m_keys\<close>, the array-shaped binary
  tree of keys with slot 0 holding the filler \<open>-1\<close>, and \<open>m_indices\<close>, which maps a key
  to its slot, 0 meaning that the key is absent. Keys are C++ \<open>int\<close>s and are modelled as
  \<open>int\<close>. Slots are C++ \<open>int\<close>s as well, but the code only ever stores a vector size or
  the parent or child of a slot into one, so they are modelled as \<open>nat\<close>; the embedding
  is for vectors shorter than \<open>2^30\<close>, where \<open>i << 1\<close> does not overflow.

  The comparator base class \<open>LT\<close> is a parameter \<open>lt\<close> of every operation that calls
  \<open>less_than\<close>.

  An access outside a vector (the debug assertion of \<open>vector::operator[]\<close>, undefined
  behaviour otherwise) and a failed \<open>SASSERT\<close> or \<open>CASSERT\<close> precondition are the
  result \<open>None\<close>. The calls \<open>CASSERT("heap", check_invariant())\<close> inside the
  operations are not part of their model: that the check passes is what is proved about
  them. Capacities (\<open>heap(s)\<close>, \<open>set_bounds(s)\<close>) are taken as \<open>nat\<close>. The iterators
  and \<open>display\<close> are left out.
\<close>

type_synonym cmp = "int \<Rightarrow> int \<Rightarrow> bool"

record heap =
  m_keys :: "int list"
  m_indices :: "nat list"

definition left :: "nat \<Rightarrow> nat" where
  "left i = 2 * i"

definition right :: "nat \<Rightarrow> nat" where
  "right i = 2 * i + 1"

definition parent :: "nat \<Rightarrow> nat" where
  "parent i = i div 2"

text \<open>\<open>is_valid_value\<close>: the condition of its assertion.\<close>

definition is_valid_value :: "heap \<Rightarrow> int \<Rightarrow> bool" where
  "is_valid_value h v \<longleftrightarrow> 0 \<le> v \<and> v < int (length (m_indices h))"

text \<open>
  The pair of assignments \<open>m_keys[idx] = key; m_indices[key] = idx;\<close> that both sift
  loops use, for the element they shift and for the element they finally put down.
\<close>

definition place :: "heap \<Rightarrow> nat \<Rightarrow> int \<Rightarrow> heap option" where
  "place h idx key =
     (if idx < length (m_keys h) \<and> 0 \<le> key \<and> key < int (length (m_indices h))
      then Some (h\<lparr>m_keys := (m_keys h)[idx := key],
                   m_indices := (m_indices h)[nat key := idx]\<rparr>)
      else None)"

text \<open>The assignment \<open>m_indices[key] = 0\<close>.\<close>

definition clear_index :: "heap \<Rightarrow> int \<Rightarrow> heap option" where
  "clear_index h key =
     (if 0 \<le> key \<and> key < int (length (m_indices h))
      then Some (h\<lparr>m_indices := (m_indices h)[nat key := 0]\<rparr>)
      else None)"

text \<open>\<open>m_keys.pop_back()\<close>.\<close>

definition pop_back :: "heap \<Rightarrow> heap option" where
  "pop_back h = (if m_keys h = [] then None else Some (h\<lparr>m_keys := butlast (m_keys h)\<rparr>))"

subsection \<open>The invariant check\<close>

text \<open>
  \<open>check_invariant_core\<close>. A failing \<open>SASSERT\<close> aborts; the result \<open>False\<close> stands
  for that abort (also for the index read outside \<open>m_indices\<close>), \<open>True\<close> for the
  normal return. Called on slot 0 of a non-empty vector the recursion does not end
  (\<open>left(0) = 0\<close>), so the function is partial.
\<close>

partial_function (option) check_invariant_core :: "cmp \<Rightarrow> heap \<Rightarrow> nat \<Rightarrow> bool option" where
  "check_invariant_core lt h idx =
     (if idx < length (m_keys h) then
        (if \<not> (0 \<le> m_keys h ! idx \<and> m_keys h ! idx < int (length (m_indices h)) \<and>
                m_indices h ! nat (m_keys h ! idx) = idx) then Some False
         else if \<not> (parent idx = 0 \<or> \<not> lt (m_keys h ! idx) (m_keys h ! parent idx)) then Some False
         else
           Option.bind (check_invariant_core lt h (left idx)) (\<lambda>l.
             if \<not> l then Some False
             else Option.bind (check_invariant_core lt h (right idx)) (\<lambda>r.
               if \<not> r then Some False else Some True)))
      else Some True)"

declare check_invariant_core.simps [code]

definition check_invariant :: "cmp \<Rightarrow> heap \<Rightarrow> bool option" where
  "check_invariant lt h = check_invariant_core lt h 1"

subsection \<open>The sift loops\<close>

text \<open>
  The loop of \<open>move_up\<close>, with the local variables \<open>key\<close> and \<open>idx\<close> as arguments.
  The parent's key is read before the test, as in the source; the test itself
  short-circuits at the root.
\<close>

function move_up_loop :: "cmp \<Rightarrow> int \<Rightarrow> nat \<Rightarrow> heap \<Rightarrow> heap option" where
  "move_up_loop lt key idx h =
     (let parent_idx = parent idx in
      if \<not> parent_idx < length (m_keys h) then None
      else
        let parent_key = m_keys h ! parent_idx in
        if parent_idx = 0 \<or> \<not> lt key parent_key then place h idx key
        else
          (case place h idx parent_key of
             None \<Rightarrow> None
           | Some h' \<Rightarrow> move_up_loop lt key parent_idx h'))"
  by pat_completeness auto
termination
  by (relation "measure (\<lambda>(lt, key, idx, h). idx)") (auto simp: parent_def)

definition move_up :: "cmp \<Rightarrow> nat \<Rightarrow> heap \<Rightarrow> heap option" where
  "move_up lt idx h =
     (if idx < length (m_keys h) then move_up_loop lt (m_keys h ! idx) idx h else None)"

text \<open>
  The loop of \<open>move_down\<close>, with \<open>key\<close>, \<open>sz\<close> and \<open>idx\<close> as arguments. Called on
  slot 0 the source may loop forever (\<open>left(0) = 0\<close>), so the loop is a partial function
  and not returning is \<open>None\<close>.
\<close>

partial_function (option) move_down_loop :: "cmp \<Rightarrow> int \<Rightarrow> nat \<Rightarrow> nat \<Rightarrow> heap \<Rightarrow> heap option" where
  "move_down_loop lt key sz idx h =
     (let left_idx = left idx in
      if left_idx \<ge> sz then place h idx key
      else if \<not> left_idx < length (m_keys h) then None
      else
        let left_key = m_keys h ! left_idx;
            right_idx = right idx in
        if right_idx < sz \<and> \<not> right_idx < length (m_keys h) then None
        else
          let min_idx = (if right_idx < sz \<and> lt (m_keys h ! right_idx) left_key
                         then right_idx else left_idx);
              min_key = m_keys h ! min_idx in
          if lt key min_key then place h idx key
          else
            (case place h idx min_key of
               None \<Rightarrow> None
             | Some h' \<Rightarrow> move_down_loop lt key sz min_idx h'))"

declare move_down_loop.simps [code]

definition move_down :: "cmp \<Rightarrow> nat \<Rightarrow> heap \<Rightarrow> heap option" where
  "move_down lt idx h =
     (if idx < length (m_keys h)
      then move_down_loop lt (m_keys h ! idx) (length (m_keys h)) idx h
      else None)"

subsection \<open>The public operations\<close>

text \<open>\<open>int_vector::resize(s, 0)\<close>.\<close>

definition resize :: "nat \<Rightarrow> nat list \<Rightarrow> nat list" where
  "resize s xs = take s xs @ replicate (s - length xs) 0"

definition set_bounds :: "nat \<Rightarrow> heap \<Rightarrow> heap" where
  "set_bounds s h = h\<lparr>m_indices := resize s (m_indices h)\<rparr>"

text \<open>The constructor \<open>heap(s, lt)\<close>.\<close>

definition heap_init :: "nat \<Rightarrow> heap" where
  "heap_init s = set_bounds s \<lparr>m_keys = [] @ [-1], m_indices = []\<rparr>"

definition get_key :: "heap \<Rightarrow> nat \<Rightarrow> int option" where
  "get_key h index = (if index < length (m_keys h) then Some (m_keys h ! index) else None)"

definition get_index :: "heap \<Rightarrow> int \<Rightarrow> nat option" where
  "get_index h key =
     (if 0 \<le> key \<and> key < int (length (m_indices h)) then Some (m_indices h ! nat key) else None)"

definition heap_empty :: "heap \<Rightarrow> bool" where
  "heap_empty h \<longleftrightarrow> length (m_keys h) = 1"

text \<open>
  \<open>contains\<close>: the comparison with the size comes first and short-circuits, so a key at
  or beyond the capacity is answered \<open>false\<close>, and a negative key reads outside the
  vector.
\<close>

definition contains :: "heap \<Rightarrow> int \<Rightarrow> bool option" where
  "contains h key =
     (if \<not> key < int (length (m_indices h)) then Some False
      else if key < 0 then None
      else Some (m_indices h ! nat key \<noteq> 0))"

definition reset :: "heap \<Rightarrow> heap" where
  "reset h =
     (if heap_empty h then h
      else h\<lparr>m_indices := replicate (length (m_indices h)) 0, m_keys := [] @ [-1]\<rparr>)"

definition clear :: "heap \<Rightarrow> heap" where
  "clear h = reset h"

text \<open>The loop \<open>for (i = n / 2; i > 0; --i) move_down(i)\<close> of \<open>heapify\<close>.\<close>

fun heapify_loop :: "cmp \<Rightarrow> nat \<Rightarrow> heap \<Rightarrow> heap option" where
  "heapify_loop lt 0 h = Some h"
| "heapify_loop lt (Suc i) h =
     (case move_down lt (Suc i) h of
        None \<Rightarrow> None
      | Some h' \<Rightarrow> heapify_loop lt i h')"

definition heapify :: "cmp \<Rightarrow> heap \<Rightarrow> heap option" where
  "heapify lt h = heapify_loop lt ((length (m_keys h) - 1) div 2) h"

definition get_bounds :: "heap \<Rightarrow> nat" where
  "get_bounds h = length (m_indices h)"

definition heap_size :: "heap \<Rightarrow> nat" where
  "heap_size h = length (m_indices h)"

definition reserve :: "int \<Rightarrow> heap \<Rightarrow> heap" where
  "reserve s h = (if s > int (length (m_indices h)) then set_bounds (nat s) h else h)"

definition min_value :: "heap \<Rightarrow> int option" where
  "min_value h =
     (if heap_empty h \<or> \<not> 1 < length (m_keys h) then None else Some (m_keys h ! 1))"

definition erase_min :: "cmp \<Rightarrow> heap \<Rightarrow> (int \<times> heap) option" where
  "erase_min lt h =
     (if heap_empty h \<or> \<not> length (m_keys h) \<ge> 2 then None
      else
        let result = m_keys h ! 1 in
        if length (m_keys h) = 2 then
          (case clear_index h result of
             None \<Rightarrow> None
           | Some h1 \<Rightarrow>
               (case pop_back h1 of
                  None \<Rightarrow> None
                | Some h2 \<Rightarrow> Some (result, h2)))
        else
          let last_key = last (m_keys h) in
          (case place h 1 last_key of
             None \<Rightarrow> None
           | Some h1 \<Rightarrow>
               (case clear_index h1 result of
                  None \<Rightarrow> None
                | Some h2 \<Rightarrow>
                    (case pop_back h2 of
                       None \<Rightarrow> None
                     | Some h3 \<Rightarrow>
                         (case move_down lt 1 h3 of
                            None \<Rightarrow> None
                          | Some h4 \<Rightarrow> Some (result, h4))))))"

definition erase :: "cmp \<Rightarrow> int \<Rightarrow> heap \<Rightarrow> heap option" where
  "erase lt key h =
     (if contains h key \<noteq> Some True then None
      else
        let idx = m_indices h ! nat key in
        if int idx = int (length (m_keys h)) - 1 then
          (case clear_index h key of
             None \<Rightarrow> None
           | Some h1 \<Rightarrow> pop_back h1)
        else if m_keys h = [] then None
        else
          let last_key = last (m_keys h) in
          (case place h idx last_key of
             None \<Rightarrow> None
           | Some h1 \<Rightarrow>
               (case clear_index h1 key of
                  None \<Rightarrow> None
                | Some h2 \<Rightarrow>
                    (case pop_back h2 of
                       None \<Rightarrow> None
                     | Some h3 \<Rightarrow>
                         let parent_idx = parent idx in
                         if parent_idx \<noteq> 0 \<and> \<not> parent idx < length (m_keys h3) then None
                         else if parent_idx \<noteq> 0 \<and> lt last_key (m_keys h3 ! parent idx)
                         then move_up lt idx h3
                         else move_down lt idx h3))))"

definition decreased :: "cmp \<Rightarrow> int \<Rightarrow> heap \<Rightarrow> heap option" where
  "decreased lt key h =
     (if contains h key \<noteq> Some True then None
      else move_up lt (m_indices h ! nat key) h)"

definition increased :: "cmp \<Rightarrow> int \<Rightarrow> heap \<Rightarrow> heap option" where
  "increased lt key h =
     (if contains h key \<noteq> Some True then None
      else move_down lt (m_indices h ! nat key) h)"

definition heap_insert :: "cmp \<Rightarrow> int \<Rightarrow> heap \<Rightarrow> heap option" where
  "heap_insert lt key h =
     (if contains h key \<noteq> Some False \<or> \<not> is_valid_value h key then None
      else
        let idx = length (m_keys h);
            h1 = h\<lparr>m_indices := (m_indices h)[nat key := idx]\<rparr>;
            h2 = h1\<lparr>m_keys := m_keys h1 @ [key]\<rparr>
        in move_up lt idx h2)"

text \<open>
  \<open>swap\<close> exchanges the two vectors of \<open>this\<close> and \<open>other\<close>; the comparator base
  object of each heap stays where it is. The result is the pair of the new \<open>this\<close>
  and the new \<open>other\<close>.
\<close>

definition swap :: "heap \<Rightarrow> heap \<Rightarrow> heap \<times> heap" where
  "swap h other =
     (h\<lparr>m_keys := m_keys other, m_indices := m_indices other\<rparr>,
      other\<lparr>m_keys := m_keys h, m_indices := m_indices h\<rparr>)"

text \<open>
  The loop of \<open>find_le\<close>. The vector \<open>todo\<close> is used as a stack, so it is a list whose
  head is \<open>todo.back()\<close>; \<open>result.push_back\<close> appends. The heap is threaded through and
  returned with the result vector. Started with slot 0 on the stack the source may loop
  forever, so the loop is a partial function.
\<close>

partial_function (option) find_le_loop ::
    "cmp \<Rightarrow> int \<Rightarrow> heap \<Rightarrow> nat list \<Rightarrow> int list \<Rightarrow> (heap \<times> int list) option" where
  "find_le_loop lt key h todo result =
     (case todo of
        [] \<Rightarrow> Some (h, result)
      | index # todo' \<Rightarrow>
          if index < length (m_keys h) \<and> \<not> lt key (m_keys h ! index)
          then find_le_loop lt key h (right index # left index # todo') (result @ [m_keys h ! index])
          else find_le_loop lt key h todo' result)"

declare find_le_loop.simps [code]

definition find_le :: "cmp \<Rightarrow> int \<Rightarrow> heap \<Rightarrow> int list \<Rightarrow> (heap \<times> int list) option" where
  "find_le lt key h result = find_le_loop lt key h [1] result"

section \<open>Specification\<close>

subsection \<open>Comparators\<close>

text \<open>
  The comparator is the strict part of a total preorder: asymmetric and negatively
  transitive. When the caller changes the priority of one key, the comparator changes for
  the pairs with that key only, in the direction the caller announces.
\<close>

definition strict_weak_order :: "cmp \<Rightarrow> bool" where
  "strict_weak_order lt \<longleftrightarrow>
     (\<forall>a b. lt a b \<longrightarrow> \<not> lt b a) \<and> (\<forall>a b c. \<not> lt a b \<and> \<not> lt b c \<longrightarrow> \<not> lt a c)"

definition agree_except :: "cmp \<Rightarrow> cmp \<Rightarrow> int \<Rightarrow> bool" where
  "agree_except lt lt' k \<longleftrightarrow> (\<forall>a b. a \<noteq> k \<and> b \<noteq> k \<longrightarrow> lt' a b = lt a b)"

definition priority_decreased :: "cmp \<Rightarrow> cmp \<Rightarrow> int \<Rightarrow> bool" where
  "priority_decreased lt lt' k \<longleftrightarrow> agree_except lt lt' k \<and> (\<forall>x. \<not> lt x k \<longrightarrow> \<not> lt' x k)"

definition priority_increased :: "cmp \<Rightarrow> cmp \<Rightarrow> int \<Rightarrow> bool" where
  "priority_increased lt lt' k \<longleftrightarrow> agree_except lt lt' k \<and> (\<forall>x. \<not> lt k x \<longrightarrow> \<not> lt' k x)"

subsection \<open>The heap invariant\<close>

text \<open>
  \<open>index_ok\<close>: every occupied slot holds a key in range whose index entry is that slot.
  \<open>index_sound\<close>: every index entry other than 0 is an occupied slot that holds the key.
  \<open>heap_order\<close>: no occupied slot beyond the root is placed before its parent.
  \<open>present\<close> is the set of keys in the occupied slots.
\<close>

definition index_ok :: "heap \<Rightarrow> bool" where
  "index_ok h \<longleftrightarrow>
     (\<forall>i\<in>{1..<length (m_keys h)}.
        0 \<le> m_keys h ! i \<and> m_keys h ! i < int (length (m_indices h)) \<and>
        m_indices h ! nat (m_keys h ! i) = i)"

definition index_sound :: "heap \<Rightarrow> bool" where
  "index_sound h \<longleftrightarrow>
     (\<forall>k\<in>{0..<length (m_indices h)}.
        m_indices h ! k \<noteq> 0 \<longrightarrow>
        m_indices h ! k < length (m_keys h) \<and> m_keys h ! (m_indices h ! k) = int k)"

definition heap_order :: "cmp \<Rightarrow> heap \<Rightarrow> bool" where
  "heap_order lt h \<longleftrightarrow>
     (\<forall>i\<in>{2..<length (m_keys h)}. \<not> lt (m_keys h ! i) (m_keys h ! parent i))"

definition well_formed :: "heap \<Rightarrow> bool" where
  "well_formed h \<longleftrightarrow> m_keys h \<noteq> [] \<and> index_ok h \<and> index_sound h"

definition heap_inv :: "cmp \<Rightarrow> heap \<Rightarrow> bool" where
  "heap_inv lt h \<longleftrightarrow> well_formed h \<and> heap_order lt h"

definition slot_ok :: "cmp \<Rightarrow> heap \<Rightarrow> nat \<Rightarrow> bool" where
  "slot_ok lt h j \<longleftrightarrow>
     (0 \<le> m_keys h ! j \<and> m_keys h ! j < int (length (m_indices h)) \<and>
      m_indices h ! nat (m_keys h ! j) = j) \<and>
     (parent j = 0 \<or> \<not> lt (m_keys h ! j) (m_keys h ! parent j))"

definition present :: "heap \<Rightarrow> int set" where
  "present h = set (tl (m_keys h))"

definition no_ties :: "cmp \<Rightarrow> heap \<Rightarrow> bool" where
  "no_ties lt h \<longleftrightarrow> (\<forall>a\<in>present h. \<forall>b\<in>present h. a \<noteq> b \<longrightarrow> lt a b \<or> lt b a)"

subsection \<open>Sequences of valid operations\<close>

text \<open>
  \<open>reachable lt h S\<close>: the heap \<open>h\<close>, used with the comparator \<open>lt\<close>, results from a
  sequence of operations, each called under its precondition; \<open>S\<close> is the set of keys
  that were inserted and not removed since the construction or the last \<open>reset\<close>.
  \<open>swap\<close> is taken between two heaps that use the same comparator.
\<close>

inductive reachable :: "cmp \<Rightarrow> heap \<Rightarrow> int set \<Rightarrow> bool" where
  construct: "strict_weak_order lt \<Longrightarrow> reachable lt (heap_init s) {}"
| insert: "reachable lt h S \<Longrightarrow> is_valid_value h key \<Longrightarrow> contains h key = Some False \<Longrightarrow>
     heap_insert lt key h = Some h' \<Longrightarrow> reachable lt h' (S \<union> {key})"
| erase_min: "reachable lt h S \<Longrightarrow> \<not> heap_empty h \<Longrightarrow> erase_min lt h = Some (r, h') \<Longrightarrow>
     reachable lt h' (S - {r})"
| erase: "reachable lt h S \<Longrightarrow> contains h key = Some True \<Longrightarrow> erase lt key h = Some h' \<Longrightarrow>
     reachable lt h' (S - {key})"
| decreased: "reachable lt h S \<Longrightarrow> contains h key = Some True \<Longrightarrow> strict_weak_order lt' \<Longrightarrow>
     priority_decreased lt lt' key \<Longrightarrow> decreased lt' key h = Some h' \<Longrightarrow> reachable lt' h' S"
| increased: "reachable lt h S \<Longrightarrow> contains h key = Some True \<Longrightarrow> strict_weak_order lt' \<Longrightarrow>
     priority_increased lt lt' key \<Longrightarrow> increased lt' key h = Some h' \<Longrightarrow> reachable lt' h' S"
| heapify: "reachable lt h S \<Longrightarrow> strict_weak_order lt' \<Longrightarrow> heapify lt' h = Some h' \<Longrightarrow>
     reachable lt' h' S"
| reserve: "reachable lt h S \<Longrightarrow> reachable lt (reserve s h) S"
| reset: "reachable lt h S \<Longrightarrow> reachable lt (reset h) {}"
| swap: "reachable lt h S \<Longrightarrow> reachable lt other S' \<Longrightarrow>
     reachable lt (fst (swap h other)) S'"

text \<open>
  The caller's loop of the extraction claim:
  \<open>while (!h.empty()) out.push_back(h.erase_min());\<close>
\<close>

partial_function (option) drain_loop :: "cmp \<Rightarrow> heap \<Rightarrow> int list \<Rightarrow> (int list \<times> heap) option" where
  "drain_loop lt h out =
     (if heap_empty h then Some (out, h)
      else
        (case erase_min lt h of
           None \<Rightarrow> None
         | Some (r, h') \<Rightarrow> drain_loop lt h' (out @ [r])))"

declare drain_loop.simps [code]

definition drain :: "cmp \<Rightarrow> heap \<Rightarrow> (int list \<times> heap) option" where
  "drain lt h = drain_loop lt h []"

definition ascending :: "cmp \<Rightarrow> int list \<Rightarrow> bool" where
  "ascending lt xs \<longleftrightarrow> sorted_wrt (\<lambda>a b. \<not> lt b a) xs"

subsection \<open>Comparators of the concrete scenarios\<close>

text \<open>
  The ascending and the descending order of the integers, and the order by \<open>key / 2\<close>,
  for which 2 and 3 are tied.
\<close>

definition int_lt :: cmp where
  "int_lt a b \<longleftrightarrow> a < b"

definition int_gt :: cmp where
  "int_gt a b \<longleftrightarrow> b < a"

definition half_lt :: cmp where
  "half_lt a b \<longleftrightarrow> a div 2 < b div 2"

section \<open>Notions used in the proofs\<close>

text \<open>
  \<open>fill\<close> is the state of a sift loop with the moving key written into the hole, and
  \<open>exch\<close> the exchange of two slots; \<open>up_ok\<close> and \<open>down_ok\<close> are the heap order
  with the one exception a sift loop repairs; \<open>min_child\<close> is the slot \<open>min_idx\<close> that
  an iteration of \<open>move_down\<close> picks.
\<close>

definition fill :: "heap \<Rightarrow> nat \<Rightarrow> int \<Rightarrow> heap" where
  "fill h idx key = h\<lparr>m_keys := (m_keys h)[idx := key], m_indices := (m_indices h)[nat key := idx]\<rparr>"

definition exch :: "heap \<Rightarrow> nat \<Rightarrow> nat \<Rightarrow> heap" where
  "exch h i j = h\<lparr>m_keys := (m_keys h)[i := m_keys h ! j, j := m_keys h ! i],
                  m_indices := (m_indices h)[nat (m_keys h ! j) := i, nat (m_keys h ! i) := j]\<rparr>"

definition ordered_from :: "cmp \<Rightarrow> int list \<Rightarrow> nat \<Rightarrow> bool" where
  "ordered_from lt a m \<longleftrightarrow>
     (\<forall>c. 2 \<le> c \<and> c < length a \<and> m \<le> parent c \<longrightarrow> \<not> lt (a ! c) (a ! parent c))"

definition down_ok :: "cmp \<Rightarrow> int list \<Rightarrow> nat \<Rightarrow> nat \<Rightarrow> bool" where
  "down_ok lt a m idx \<longleftrightarrow>
     (\<forall>c. 2 \<le> c \<and> c < length a \<and> m \<le> parent c \<and> parent c \<noteq> idx \<longrightarrow> \<not> lt (a ! c) (a ! parent c)) \<and>
     (m \<le> parent idx \<longrightarrow> (\<forall>c. c < length a \<and> parent c = idx \<longrightarrow> \<not> lt (a ! c) (a ! parent idx)))"

definition up_ok :: "cmp \<Rightarrow> int list \<Rightarrow> nat \<Rightarrow> bool" where
  "up_ok lt a idx \<longleftrightarrow>
     (\<forall>c. 2 \<le> c \<and> c < length a \<and> c \<noteq> idx \<longrightarrow> \<not> lt (a ! c) (a ! parent c)) \<and>
     (2 \<le> idx \<longrightarrow> (\<forall>c. c < length a \<and> parent c = idx \<longrightarrow> \<not> lt (a ! c) (a ! parent idx)))"

definition sift_post :: "cmp \<Rightarrow> nat \<Rightarrow> heap \<Rightarrow> heap \<Rightarrow> bool" where
  "sift_post lt m g h' \<longleftrightarrow>
     well_formed h' \<and> ordered_from lt (m_keys h') m \<and>
     mset (m_keys h') = mset (m_keys g) \<and>
     length (m_indices h') = length (m_indices g) \<and>
     length (m_keys h') = length (m_keys g) \<and>
     m_keys h' ! 0 = m_keys g ! 0"

definition same_keys :: "heap \<Rightarrow> heap \<Rightarrow> bool" where
  "same_keys h h' \<longleftrightarrow>
     mset (m_keys h') = mset (m_keys h) \<and> length (m_indices h') = length (m_indices h) \<and>
     length (m_keys h') = length (m_keys h) \<and> m_keys h' ! 0 = m_keys h ! 0"

definition min_child :: "cmp \<Rightarrow> heap \<Rightarrow> nat \<Rightarrow> nat \<Rightarrow> nat" where
  "min_child lt h sz idx =
     (if right idx < sz \<and> lt (m_keys h ! right idx) (m_keys h ! left idx) then right idx else left idx)"

text \<open>
  The states inside \<open>insert\<close>, \<open>erase\<close> and \<open>erase_min\<close> before they sift, and what
  a removal achieves.
\<close>

definition pushed :: "heap \<Rightarrow> int \<Rightarrow> heap" where
  "pushed h key = h\<lparr>m_indices := (m_indices h)[nat key := length (m_keys h)], m_keys := m_keys h @ [key]\<rparr>"

definition moved_last :: "heap \<Rightarrow> nat \<Rightarrow> heap" where
  "moved_last h idx =
     h\<lparr>m_indices := (m_indices h)[nat (last (m_keys h)) := idx, nat (m_keys h ! idx) := 0],
       m_keys := butlast ((m_keys h)[idx := last (m_keys h)])\<rparr>"

definition dropped_last :: "heap \<Rightarrow> heap" where
  "dropped_last h =
     h\<lparr>m_indices := (m_indices h)[nat (last (m_keys h)) := 0], m_keys := butlast (m_keys h)\<rparr>"

definition removed :: "cmp \<Rightarrow> heap \<Rightarrow> int \<Rightarrow> heap \<Rightarrow> bool" where
  "removed lt h key h' \<longleftrightarrow>
     heap_inv lt h' \<and> mset (m_keys h') = mset (m_keys h) - {#key#} \<and>
     length (m_indices h') = length (m_indices h) \<and>
     Suc (length (m_keys h')) = length (m_keys h) \<and> m_keys h' ! 0 = m_keys h ! 0"

text \<open>
  \<open>below i j\<close>: slot \<open>j\<close> lies in the subtree of slot \<open>i\<close>.
\<close>

definition below :: "nat \<Rightarrow> nat \<Rightarrow> bool" where
  "below i j \<longleftrightarrow> (\<exists>d. j div 2 ^ d = i)"

definition qualifying :: "cmp \<Rightarrow> int \<Rightarrow> heap \<Rightarrow> nat \<Rightarrow> int set" where
  "qualifying lt key h i =
     {m_keys h ! j | j. j < length (m_keys h) \<and> below i j \<and> \<not> lt key (m_keys h ! j)}"

definition shifted :: "int list \<Rightarrow> nat \<Rightarrow> nat \<Rightarrow> int list \<Rightarrow> bool" where
  "shifted a t idx b \<longleftrightarrow>
     (\<forall>c. c < length b \<and> c \<noteq> idx \<longrightarrow>
        b ! c = (if below idx c \<and> below c t then a ! parent c else a ! c))"

section \<open>Properties of the sift loops\<close>

lemma place_eq:
  "place h idx key =
     (if idx < length (m_keys h) \<and> 0 \<le> key \<and> key < int (length (m_indices h))
      then Some (fill h idx key) else None)"
  by (simp add: place_def fill_def)

lemma fill_sel [simp]:
  "m_keys (fill h i k) = (m_keys h)[i := k]"
  "m_indices (fill h i k) = (m_indices h)[nat k := i]"
  by (simp_all add: fill_def)

lemma exch_sel [simp]:
  "m_keys (exch h i j) = (m_keys h)[i := m_keys h ! j, j := m_keys h ! i]"
  "m_indices (exch h i j) = (m_indices h)[nat (m_keys h ! j) := i, nat (m_keys h ! i) := j]"
  by (simp_all add: exch_def)

lemma index_okD:
  assumes "index_ok h" "1 \<le> i" "i < length (m_keys h)"
  shows "0 \<le> m_keys h ! i" "m_keys h ! i < int (length (m_indices h))"
    "m_indices h ! nat (m_keys h ! i) = i"
  using assms by (auto simp: index_ok_def)

lemma index_okI:
  assumes "\<And>i. 1 \<le> i \<Longrightarrow> i < length (m_keys h) \<Longrightarrow>
     0 \<le> m_keys h ! i \<and> m_keys h ! i < int (length (m_indices h)) \<and> m_indices h ! nat (m_keys h ! i) = i"
  shows "index_ok h"
  using assms by (auto simp: index_ok_def)

lemma index_soundD:
  assumes "index_sound h" "k < length (m_indices h)" "m_indices h ! k \<noteq> 0"
  shows "m_indices h ! k < length (m_keys h)" "m_keys h ! (m_indices h ! k) = int k"
  using assms by (auto simp: index_sound_def)

lemma index_soundI:
  assumes "\<And>k. k < length (m_indices h) \<Longrightarrow> m_indices h ! k \<noteq> 0 \<Longrightarrow>
     m_indices h ! k < length (m_keys h) \<and> m_keys h ! (m_indices h ! k) = int k"
  shows "index_sound h"
  using assms by (auto simp: index_sound_def)

lemma index_ok_distinct:
  assumes "index_ok h" "1 \<le> i" "i < length (m_keys h)" "1 \<le> j" "j < length (m_keys h)"
    and "m_keys h ! i = m_keys h ! j"
  shows "i = j"
proof -
  have "i = m_indices h ! nat (m_keys h ! i)"
    using index_okD(3)[OF assms(1,2,3)] by (rule sym)
  also have "\<dots> = m_indices h ! nat (m_keys h ! j)"
    by (rule arg_cong[OF assms(6)])
  also have "\<dots> = j"
    by (rule index_okD(3)[OF assms(1,4,5)])
  finally show ?thesis .
qed

lemma fill_fill_exch:
  assumes "i \<noteq> j" "m_keys h ! j = pk" "key \<noteq> pk" "0 \<le> key" "0 \<le> pk" "i < length (m_keys h)"
  shows "fill (fill h i pk) j key = exch (fill h i key) i j"
proof -
  have n: "nat key \<noteq> nat pk" using assms(3,4,5) by (simp add: eq_nat_nat_iff)
  have a: "(m_keys h)[i := key] ! j = pk" "(m_keys h)[i := key] ! i = key"
    using assms(1,2,6) by simp_all
  have "(m_indices h)[nat key := i, nat pk := i, nat key := j] = (m_indices h)[nat pk := i, nat key := j]"
    using n by (simp add: list_update_swap[of "nat key" "nat pk"])
  then show ?thesis
    unfolding fill_def exch_def by (simp add: a)
qed

lemma index_ok_exch:
  assumes "index_ok h" "1 \<le> i" "i < length (m_keys h)" "1 \<le> j" "j < length (m_keys h)" "i \<noteq> j"
  shows "index_ok (exch h i j)"
proof (rule index_okI)
  fix t assume t: "1 \<le> t" "t < length (m_keys (exch h i j))"
  then have t': "t < length (m_keys h)" by simp
  note di = index_okD[OF assms(1,2,3)] and dj = index_okD[OF assms(1,4,5)] and dt = index_okD[OF assms(1) t(1) t']
  have nij: "nat (m_keys h ! i) \<noteq> nat (m_keys h ! j)"
    using index_ok_distinct[OF assms(1,2,3,4,5)] assms(6) di(1) dj(1) by (auto simp: eq_nat_nat_iff)
  have nti: "t \<noteq> i \<Longrightarrow> nat (m_keys h ! t) \<noteq> nat (m_keys h ! i)"
    using index_ok_distinct[OF assms(1) t(1) t' assms(2,3)] di(1) dt(1) by (auto simp: eq_nat_nat_iff)
  have ntj: "t \<noteq> j \<Longrightarrow> nat (m_keys h ! t) \<noteq> nat (m_keys h ! j)"
    using index_ok_distinct[OF assms(1) t(1) t' assms(4,5)] dj(1) dt(1) by (auto simp: eq_nat_nat_iff)
  show "0 \<le> m_keys (exch h i j) ! t \<and> m_keys (exch h i j) ! t < int (length (m_indices (exch h i j))) \<and>
        m_indices (exch h i j) ! nat (m_keys (exch h i j) ! t) = t"
    using di dj dt nij nti ntj assms(3,5,6) t'
    by (cases "t = i"; cases "t = j") (simp_all add: nth_list_update)
qed

lemma index_sound_exch:
  assumes "index_ok h" "index_sound h" "1 \<le> i" "i < length (m_keys h)" "1 \<le> j" "j < length (m_keys h)" "i \<noteq> j"
  shows "index_sound (exch h i j)"
proof (rule index_soundI)
  fix k assume k: "k < length (m_indices (exch h i j))" "m_indices (exch h i j) ! k \<noteq> 0"
  then have k': "k < length (m_indices h)" by simp
  note di = index_okD[OF assms(1,3,4)] and dj = index_okD[OF assms(1,5,6)]
  show "m_indices (exch h i j) ! k < length (m_keys (exch h i j)) \<and>
        m_keys (exch h i j) ! (m_indices (exch h i j) ! k) = int k"
  proof (cases "k = nat (m_keys h ! i)")
    case True
    then show ?thesis using di dj assms by (simp add: nth_list_update)
  next
    case ki: False
    show ?thesis
    proof (cases "k = nat (m_keys h ! j)")
      case True
      then show ?thesis using di dj assms ki by (simp add: nth_list_update)
    next
      case kj: False
      have e: "m_indices (exch h i j) ! k = m_indices h ! k" using ki kj by simp
      with k have nz: "m_indices h ! k \<noteq> 0" by simp
      note ds = index_soundD[OF assms(2) k' nz]
      have "m_indices h ! k \<noteq> i" "m_indices h ! k \<noteq> j"
        using ds(2) ki kj by auto
      then show ?thesis using e ds by simp
    qed
  qed
qed

lemma well_formed_exch:
  assumes "well_formed h" "1 \<le> i" "i < length (m_keys h)" "1 \<le> j" "j < length (m_keys h)" "i \<noteq> j"
  shows "well_formed (exch h i j)"
  using assms index_ok_exch[of h i j] index_sound_exch[of h i j] by (auto simp: well_formed_def)

lemma parent_ge1: "2 \<le> c \<Longrightarrow> 1 \<le> parent c"
  by (simp add: parent_def)

lemma heap_order_iff: "heap_order lt h \<longleftrightarrow> ordered_from lt (m_keys h) 1"
  unfolding heap_order_def ordered_from_def Ball_def
  using parent_ge1 by (simp add: One_nat_def[symmetric] del: One_nat_def) blast

lemma swo_asym: "strict_weak_order lt \<Longrightarrow> lt a b \<Longrightarrow> \<not> lt b a"
  unfolding strict_weak_order_def by blast

lemma swo_irrefl: "strict_weak_order lt \<Longrightarrow> \<not> lt a a"
  unfolding strict_weak_order_def by blast

lemma swo_ntrans: "strict_weak_order lt \<Longrightarrow> \<not> lt a b \<Longrightarrow> \<not> lt b c \<Longrightarrow> \<not> lt a c"
  unfolding strict_weak_order_def by blast

lemma down_ok_stop:
  assumes "down_ok lt a m idx"
    and "\<forall>c. c < length a \<and> parent c = idx \<and> 2 \<le> c \<longrightarrow> \<not> lt (a ! c) (a ! idx)"
  shows "ordered_from lt a m"
  unfolding ordered_from_def
proof (intro allI impI)
  fix c assume c: "2 \<le> c \<and> c < length a \<and> m \<le> parent c"
  show "\<not> lt (a ! c) (a ! parent c)"
  proof (cases "parent c = idx")
    case True
    have "\<not> lt (a ! c) (a ! idx)" using assms(2) c True by blast
    then show ?thesis unfolding True .
  next
    case False
    show ?thesis using assms(1) c False unfolding down_ok_def by blast
  qed
qed

lemma down_okD1:
  "down_ok lt a m idx \<Longrightarrow> 2 \<le> c \<Longrightarrow> c < length a \<Longrightarrow> m \<le> parent c \<Longrightarrow> parent c \<noteq> idx
     \<Longrightarrow> \<not> lt (a ! c) (a ! parent c)"
  unfolding down_ok_def by blast

lemma down_okD2:
  "down_ok lt a m idx \<Longrightarrow> m \<le> parent idx \<Longrightarrow> c < length a \<Longrightarrow> parent c = idx
     \<Longrightarrow> \<not> lt (a ! c) (a ! parent idx)"
  unfolding down_ok_def by blast

lemma down_ok_step:
  assumes swo: "strict_weak_order lt"
    and ok: "down_ok lt a m idx"
    and idx: "1 \<le> idx" "idx < length a" "m \<le> idx"
    and mc: "mc < length a" "parent mc = idx"
    and least: "\<forall>c. c < length a \<and> parent c = idx \<longrightarrow> \<not> lt (a ! c) (a ! mc)"
    and nlt: "\<not> lt (a ! idx) (a ! mc)"
  shows "down_ok lt (a[idx := a ! mc, mc := a ! idx]) m mc"
proof -
  let ?b = "a[idx := a ! mc, mc := a ! idx]"
  have ne: "mc \<noteq> idx" "parent idx \<noteq> idx" "parent idx \<noteq> mc" "2 \<le> mc"
    using idx(1) mc(2) by (auto simp: parent_def)
  have b_idx: "?b ! idx = a ! mc" and b_mc: "?b ! mc = a ! idx"
    using idx(2) mc(1) ne(1) by simp_all
  have b_other: "\<And>t. t \<noteq> idx \<Longrightarrow> t \<noteq> mc \<Longrightarrow> ?b ! t = a ! t"
    by simp
  have part1: "\<not> lt (?b ! c) (?b ! parent c)"
    if c: "2 \<le> c" "c < length a" "m \<le> parent c" "parent c \<noteq> mc" for c
  proof -
    consider (a) "c = mc" | (b) "c \<noteq> mc" "parent c = idx" | (c) "c = idx" | (d) "c \<noteq> mc" "c \<noteq> idx" "parent c \<noteq> idx"
      by blast
    then show ?thesis
    proof cases
      case a
      have "?b ! parent c = a ! mc" unfolding a mc(2) by (rule b_idx)
      moreover have "?b ! c = a ! idx" unfolding a by (rule b_mc)
      ultimately show ?thesis using nlt by simp
    next
      case b
      have "c \<noteq> idx" using b(2) ne(2) by auto
      then have "?b ! c = a ! c" using b(1) by (simp add: b_other)
      moreover have "?b ! parent c = a ! mc" unfolding b(2) by (rule b_idx)
      moreover have "\<not> lt (a ! c) (a ! mc)" using least c(2) b(2) by blast
      ultimately show ?thesis by simp
    next
      case c
      have "m \<le> parent idx" using c that(3) by simp
      then have "\<not> lt (a ! mc) (a ! parent idx)" by (rule down_okD2[OF ok _ mc])
      moreover have "?b ! c = a ! mc" unfolding c by (rule b_idx)
      moreover have "?b ! parent c = a ! parent idx" unfolding c using ne(2,3) by (simp add: b_other)
      ultimately show ?thesis by simp
    next
      case d
      have "\<not> lt (a ! c) (a ! parent c)" by (rule down_okD1[OF ok that(1,2,3) d(3)])
      moreover have "?b ! c = a ! c" using d by (simp add: b_other)
      moreover have "?b ! parent c = a ! parent c" using d(3) that(4) by (simp add: b_other)
      ultimately show ?thesis by simp
    qed
  qed
  have part2: "\<not> lt (?b ! c) (?b ! parent mc)" if c: "c < length a" "parent c = mc" for c
  proof -
    have c2: "2 \<le> c" "c \<noteq> mc" "c \<noteq> idx"
      using c(2) ne(4) mc(2) idx(1) by (auto simp: parent_def)
    have "m \<le> parent c" "parent c \<noteq> idx" using c(2) ne(1) idx(3) mc(2) by (auto simp: parent_def)
    then have "\<not> lt (a ! c) (a ! parent c)" by (rule down_okD1[OF ok c2(1) c(1)])
    moreover have "?b ! c = a ! c" using c2 by (simp add: b_other)
    moreover have "?b ! parent mc = a ! parent c" unfolding mc(2) c(2) by (rule b_idx)
    ultimately show ?thesis by simp
  qed
  show ?thesis
    unfolding down_ok_def
  proof (intro conjI allI impI)
    fix c assume "2 \<le> c \<and> c < length ?b \<and> m \<le> parent c \<and> parent c \<noteq> mc"
    then show "\<not> lt (?b ! c) (?b ! parent c)" using part1[of c] by simp
  next
    fix c assume "m \<le> parent mc" "c < length ?b \<and> parent c = mc"
    then show "\<not> lt (?b ! c) (?b ! parent mc)" using part2[of c] by simp
  qed
qed

lemma children_iff: "1 \<le> idx \<Longrightarrow> parent c = idx \<longleftrightarrow> c = left idx \<or> c = right idx"
  unfolding parent_def left_def right_def by presburger

lemma well_formed_fill_range:
  assumes "well_formed (fill h idx key)" "1 \<le> idx" "idx < length (m_keys h)"
  shows "0 \<le> key" "key < int (length (m_indices h))"
proof -
  have "index_ok (fill h idx key)" using assms(1) by (simp add: well_formed_def)
  from index_okD(1,2)[OF this, of idx] assms(2,3)
  show "0 \<le> key" "key < int (length (m_indices h))" by simp_all
qed

lemma well_formed_key_range:
  assumes "well_formed g" "1 \<le> c" "c < length (m_keys g)"
  shows "0 \<le> m_keys g ! c" "m_keys g ! c < int (length (m_indices g))"
  using assms index_okD(1,2)[of g c] by (simp_all add: well_formed_def)

lemma well_formed_distinct:
  assumes "well_formed g" "1 \<le> i" "i < length (m_keys g)" "1 \<le> j" "j < length (m_keys g)" "i \<noteq> j"
  shows "m_keys g ! i \<noteq> m_keys g ! j"
  using assms index_ok_distinct[of g i j] by (auto simp: well_formed_def)

lemma move_down_loop_correct:
  assumes swo: "strict_weak_order lt"
  shows "well_formed (fill h idx key) \<Longrightarrow> 1 \<le> idx \<Longrightarrow> idx < length (m_keys h) \<Longrightarrow>
     sz = length (m_keys h) \<Longrightarrow> m \<le> idx \<Longrightarrow> down_ok lt ((m_keys h)[idx := key]) m idx \<Longrightarrow>
     \<exists>h'. move_down_loop lt key sz idx h = Some h' \<and> sift_post lt m (fill h idx key) h'"
proof (induction "sz - idx" arbitrary: idx h rule: less_induct)
  case less
  let ?g = "fill h idx key"
  let ?a = "(m_keys h)[idx := key]"
  note wfg = less.prems(1) and idx = less.prems(2,3) and sz = less.prems(4)
    and m = less.prems(5) and ok = less.prems(6)
  note kr = well_formed_fill_range[OF wfg idx]
  have pl: "place h idx key = Some ?g" using idx kr by (simp add: place_eq)
  have a_idx: "?a ! idx = key" using idx by simp
  have a_other: "\<And>c. c \<noteq> idx \<Longrightarrow> ?a ! c = m_keys h ! c" by simp
  show ?case
  proof (cases "sz \<le> left idx")
    case True
    have r: "move_down_loop lt key sz idx h = Some ?g"
      by (subst move_down_loop.simps) (simp add: True pl)
    have "\<forall>c. c < length ?a \<and> parent c = idx \<and> 2 \<le> c \<longrightarrow> \<not> lt (?a ! c) (?a ! idx)"
      using True sz idx(1) by (auto simp: children_iff right_def left_def)
    from down_ok_stop[OF ok this] have "ordered_from lt ?a m" .
    then have "sift_post lt m ?g ?g" using wfg by (simp add: sift_post_def)
    with r show ?thesis by blast
  next
    case False
    define mc where "mc = (if right idx < sz \<and> lt (m_keys h ! right idx) (m_keys h ! left idx)
                           then right idx else left idx)"
    have l: "left idx < length (m_keys h)" "left idx \<noteq> idx" using False sz idx(1) by (auto simp: left_def)
    have rne: "right idx \<noteq> idx" by (simp add: right_def)
    have mc: "mc < length (m_keys h)" "parent mc = idx" "mc \<noteq> idx" "1 \<le> mc"
      using l idx(1) sz unfolding mc_def by (auto simp: children_iff left_def right_def)
    have a_l: "?a ! left idx = m_keys h ! left idx" and a_r: "?a ! right idx = m_keys h ! right idx"
      and a_mc: "?a ! mc = m_keys h ! mc"
      using l rne mc by (simp_all add: a_other)
    have least: "\<forall>c. c < length ?a \<and> parent c = idx \<longrightarrow> \<not> lt (?a ! c) (?a ! mc)"
    proof (intro allI impI)
      fix c assume c: "c < length ?a \<and> parent c = idx"
      then consider "c = left idx" | "c = right idx" "right idx < sz"
        using idx(1) sz by (auto simp: children_iff)
      then show "\<not> lt (?a ! c) (?a ! mc)"
      proof cases
        case 1
        show ?thesis unfolding 1 mc_def using swo_asym[OF swo] swo_irrefl[OF swo]
          by (simp add: a_l a_r)
      next
        case 2
        show ?thesis unfolding 2(1) mc_def using swo_asym[OF swo] swo_irrefl[OF swo] 2(2)
          by (simp add: a_l a_r)
      qed
    qed
    have step: "move_down_loop lt key sz idx h =
       (if lt key (m_keys h ! mc) then place h idx key
        else case place h idx (m_keys h ! mc) of None \<Rightarrow> None
             | Some h' \<Rightarrow> move_down_loop lt key sz mc h')"
      apply (subst move_down_loop.simps)
      using False l sz unfolding mc_def by (auto simp add: Let_def)
    show ?thesis
    proof (cases "lt key (m_keys h ! mc)")
      case True
      have r: "move_down_loop lt key sz idx h = Some ?g"
        using step True pl by simp
      have "\<forall>c. c < length ?a \<and> parent c = idx \<and> 2 \<le> c \<longrightarrow> \<not> lt (?a ! c) (?a ! idx)"
      proof (intro allI impI)
        fix c assume c: "c < length ?a \<and> parent c = idx \<and> 2 \<le> c"
        have "\<not> lt (?a ! c) (?a ! mc)" using least c by blast
        moreover have "\<not> lt (?a ! mc) key" using swo_asym[OF swo True] by (simp add: a_mc)
        ultimately show "\<not> lt (?a ! c) (?a ! idx)" unfolding a_idx by (rule swo_ntrans[OF swo])
      qed
      from down_ok_stop[OF ok this] have "ordered_from lt ?a m" .
      then have "sift_post lt m ?g ?g" using wfg by (simp add: sift_post_def)
      with r show ?thesis by blast
    next
      case nlt: False
      let ?mk = "m_keys h ! mc"
      let ?h1 = "fill h idx ?mk"
      have mkr: "0 \<le> ?mk" "?mk < int (length (m_indices h))"
        using well_formed_key_range[OF wfg mc(4)] mc(1) a_mc by simp_all
      have pl1: "place h idx ?mk = Some ?h1" using idx mkr by (simp add: place_eq)
      have r: "move_down_loop lt key sz idx h = move_down_loop lt key sz mc ?h1"
        using step nlt pl1 by simp
      have kne: "key \<noteq> ?mk"
        using well_formed_distinct[OF wfg idx(1) _ mc(4)] idx(2) mc(1,3) a_idx a_mc by simp
      have ex: "fill ?h1 mc key = exch ?g idx mc"
        using fill_fill_exch[of idx mc h ?mk key] mc(3) kne kr(1) mkr(1) idx(2) by simp
      have wf1: "well_formed (fill ?h1 mc key)"
        unfolding ex using well_formed_exch[OF wfg idx(1) _ mc(4)] idx(2) mc(1,3) by simp
      have keys1: "(m_keys ?h1)[mc := key] = ?a[idx := ?a ! mc, mc := ?a ! idx]"
        using idx(2) mc(3) by (simp add: a_mc)
      have ok1: "down_ok lt ((m_keys ?h1)[mc := key]) m mc"
        unfolding keys1
        using down_ok_step[OF swo ok idx(1) _ m _ mc(2) least] idx(2) mc(1) nlt a_mc by simp
      have lt_mc: "idx < mc" using mc(2) idx(1) by (auto simp: parent_def)
      then have d: "sz - mc < sz - idx" using mc(1) sz by simp
      have e: "mc < length (m_keys ?h1)" "sz = length (m_keys ?h1)" "m \<le> mc"
        using mc(1) sz m lt_mc by simp_all
      have "\<exists>h'. move_down_loop lt key sz mc ?h1 = Some h' \<and> sift_post lt m (fill ?h1 mc key) h'"
        by (rule less.hyps[OF d wf1 mc(4) e ok1])
      then obtain h' where h': "move_down_loop lt key sz mc ?h1 = Some h'" "sift_post lt m (fill ?h1 mc key) h'"
        by blast
      have "mset (m_keys (fill ?h1 mc key)) = mset ?a"
        using keys1 mset_swap[of mc ?a idx] idx(2) mc(1) by (simp add: list_update_swap[of idx mc])
      moreover have "m_keys (fill ?h1 mc key) ! 0 = ?a ! 0"
        using idx(1) mc(4) by simp
      ultimately have "sift_post lt m ?g h'"
        using h'(2) by (simp add: sift_post_def)
      with r h'(1) show ?thesis by simp
    qed
  qed
qed

lemma up_okD1:
  "up_ok lt a idx \<Longrightarrow> 2 \<le> c \<Longrightarrow> c < length a \<Longrightarrow> c \<noteq> idx \<Longrightarrow> \<not> lt (a ! c) (a ! parent c)"
  unfolding up_ok_def by blast

lemma up_okD2:
  "up_ok lt a idx \<Longrightarrow> 2 \<le> idx \<Longrightarrow> c < length a \<Longrightarrow> parent c = idx \<Longrightarrow> \<not> lt (a ! c) (a ! parent idx)"
  unfolding up_ok_def by blast

lemma up_ok_stop:
  assumes "up_ok lt a idx" "2 \<le> idx \<longrightarrow> \<not> lt (a ! idx) (a ! parent idx)"
  shows "ordered_from lt a 1"
  unfolding ordered_from_def
proof (intro allI impI)
  fix c assume c: "2 \<le> c \<and> c < length a \<and> 1 \<le> parent c"
  show "\<not> lt (a ! c) (a ! parent c)"
  proof (cases "c = idx")
    case True
    show ?thesis using assms(2) c unfolding True by blast
  next
    case False
    show ?thesis using up_okD1[OF assms(1) _ _ False] c by blast
  qed
qed

lemma up_ok_step:
  assumes swo: "strict_weak_order lt"
    and ok: "up_ok lt a idx"
    and idx: "2 \<le> idx" "idx < length a"
    and less: "lt (a ! idx) (a ! parent idx)"
  shows "up_ok lt (a[idx := a ! parent idx, parent idx := a ! idx]) (parent idx)"
proof -
  define p where "p = parent idx"
  let ?b = "a[idx := a ! p, p := a ! idx]"
  have ne: "p \<noteq> idx" "p < idx" "1 \<le> p" "parent p \<noteq> p" "parent p \<noteq> idx" "p < length a"
    using idx unfolding p_def by (auto simp: parent_def)
  have b_idx: "?b ! idx = a ! p" and b_p: "?b ! p = a ! idx"
    using idx(2) ne(1,6) by simp_all
  have b_other: "\<And>t. t \<noteq> idx \<Longrightarrow> t \<noteq> p \<Longrightarrow> ?b ! t = a ! t"
    by simp
  have np: "\<not> lt (a ! p) (a ! idx)" using swo_asym[OF swo less] by (simp add: p_def)
  have part1: "\<not> lt (?b ! c) (?b ! parent c)" if c: "2 \<le> c" "c < length a" "c \<noteq> p" for c
  proof -
    consider (a) "c = idx" | (b) "c \<noteq> idx" "parent c = p" | (c) "parent c = idx"
      | (d) "c \<noteq> idx" "parent c \<noteq> p" "parent c \<noteq> idx"
      by blast
    then show ?thesis
    proof cases
      case a
      have "?b ! parent c = a ! idx" unfolding a p_def[symmetric] by (rule b_p)
      moreover have "?b ! c = a ! p" unfolding a by (rule b_idx)
      ultimately show ?thesis using np by simp
    next
      case b
      have "\<not> lt (a ! c) (a ! parent c)" by (rule up_okD1[OF ok c(1,2) b(1)])
      then have "\<not> lt (a ! c) (a ! p)" unfolding b(2) .
      then have "\<not> lt (a ! c) (a ! idx)" using np by (rule swo_ntrans[OF swo])
      moreover have "?b ! c = a ! c" using b(1) c(3) by (simp add: b_other)
      moreover have "?b ! parent c = a ! idx" unfolding b(2) by (rule b_p)
      ultimately show ?thesis by simp
    next
      case c
      have cne: "c \<noteq> idx" "c \<noteq> p" using c idx(1) ne(2) by (auto simp: parent_def)
      have "\<not> lt (a ! c) (a ! parent idx)" by (rule up_okD2[OF ok idx(1) that(2) c])
      moreover have "?b ! c = a ! c" using cne by (simp add: b_other)
      moreover have "?b ! parent c = a ! parent idx" unfolding c p_def[symmetric] by (rule b_idx)
      ultimately show ?thesis by simp
    next
      case d
      have "\<not> lt (a ! c) (a ! parent c)" by (rule up_okD1[OF ok that(1,2) d(1)])
      moreover have "?b ! c = a ! c" using d(1) that(3) by (simp add: b_other)
      moreover have "?b ! parent c = a ! parent c" using d(2,3) by (simp add: b_other)
      ultimately show ?thesis by simp
    qed
  qed
  have part2: "\<not> lt (?b ! c) (?b ! parent p)" if p2: "2 \<le> p" and c: "c < length a" "parent c = p" for c
  proof -
    have pp: "?b ! parent p = a ! parent p" using ne(4,5) by (simp add: b_other)
    have up: "\<not> lt (a ! p) (a ! parent p)" by (rule up_okD1[OF ok p2 ne(6) ne(1)])
    show ?thesis
    proof (cases "c = idx")
      case True
      show ?thesis unfolding True pp b_idx by (rule up)
    next
      case False
      have c2: "2 \<le> c" "c \<noteq> p" using c(2) p2 by (auto simp: parent_def)
      have "\<not> lt (a ! c) (a ! parent c)" by (rule up_okD1[OF ok c2(1) c(1) False])
      then have "\<not> lt (a ! c) (a ! p)" unfolding c(2) .
      then have "\<not> lt (a ! c) (a ! parent p)" using up by (rule swo_ntrans[OF swo])
      moreover have "?b ! c = a ! c" using False c2(2) by (simp add: b_other)
      ultimately show ?thesis using pp by simp
    qed
  qed
  have "up_ok lt ?b p"
    unfolding up_ok_def
  proof (intro conjI allI impI)
    fix c assume "2 \<le> c \<and> c < length ?b \<and> c \<noteq> p"
    then show "\<not> lt (?b ! c) (?b ! parent c)" using part1[of c] by simp
  next
    fix c assume "2 \<le> p" "c < length ?b \<and> parent c = p"
    then show "\<not> lt (?b ! c) (?b ! parent p)" using part2[of c] by simp
  qed
  then show ?thesis unfolding p_def .
qed

lemma move_up_loop_correct:
  assumes swo: "strict_weak_order lt"
  shows "well_formed (fill h idx key) \<Longrightarrow> 1 \<le> idx \<Longrightarrow> idx < length (m_keys h) \<Longrightarrow>
     up_ok lt ((m_keys h)[idx := key]) idx \<Longrightarrow>
     \<exists>h'. move_up_loop lt key idx h = Some h' \<and> sift_post lt 1 (fill h idx key) h'"
proof (induction idx arbitrary: h rule: less_induct)
  case (less idx)
  let ?g = "fill h idx key"
  let ?a = "(m_keys h)[idx := key]"
  let ?p = "parent idx"
  note wfg = less.prems(1) and idx = less.prems(2,3) and ok = less.prems(4)
  note kr = well_formed_fill_range[OF wfg idx]
  have pl: "place h idx key = Some ?g" using idx kr by (simp add: place_eq)
  have a_idx: "?a ! idx = key" using idx by simp
  have p: "?p < length (m_keys h)" "?p \<noteq> idx" "?p < idx" using idx by (auto simp: parent_def)
  have a_p: "?a ! ?p = m_keys h ! ?p" using p(2) by simp
  have step: "move_up_loop lt key idx h =
       (if ?p = 0 \<or> \<not> lt key (m_keys h ! ?p) then place h idx key
        else case place h idx (m_keys h ! ?p) of None \<Rightarrow> None
             | Some h' \<Rightarrow> move_up_loop lt key ?p h')"
    by (subst move_up_loop.simps) (simp add: Let_def p(1))
  show ?case
  proof (cases "?p = 0 \<or> \<not> lt key (m_keys h ! ?p)")
    case True
    have r: "move_up_loop lt key idx h = Some ?g" using step True pl by simp
    have "2 \<le> idx \<longrightarrow> \<not> lt (?a ! idx) (?a ! ?p)"
      using True unfolding a_idx a_p by (auto simp: parent_def)
    from up_ok_stop[OF ok this] have "ordered_from lt ?a 1" .
    then have "sift_post lt 1 ?g ?g" using wfg by (simp add: sift_post_def)
    with r show ?thesis by blast
  next
    case False
    let ?pk = "m_keys h ! ?p"
    let ?h1 = "fill h idx ?pk"
    have p1: "1 \<le> ?p" "2 \<le> idx" and ltk: "lt key ?pk" using False by (auto simp: parent_def)
    have pkr: "0 \<le> ?pk" "?pk < int (length (m_indices h))"
      using well_formed_key_range[OF wfg p1(1)] p(1) a_p by simp_all
    have pl1: "place h idx ?pk = Some ?h1" using idx pkr by (simp add: place_eq)
    have r: "move_up_loop lt key idx h = move_up_loop lt key ?p ?h1"
      using step False pl1 by simp
    have kne: "key \<noteq> ?pk"
      using well_formed_distinct[OF wfg idx(1) _ p1(1)] idx(2) p(1,2) a_idx a_p by simp
    have ex: "fill ?h1 ?p key = exch ?g idx ?p"
      using fill_fill_exch[of idx ?p h ?pk key] p(2) kne kr(1) pkr(1) idx(2) by simp
    have wf1: "well_formed (fill ?h1 ?p key)"
      unfolding ex using well_formed_exch[OF wfg idx(1) _ p1(1)] idx(2) p(1,2) by simp
    have keys1: "(m_keys ?h1)[?p := key] = ?a[idx := ?a ! ?p, ?p := ?a ! idx]"
      using idx(2) p(2) by (simp add: a_p)
    have ok1: "up_ok lt ((m_keys ?h1)[?p := key]) ?p"
      unfolding keys1
      using up_ok_step[OF swo ok p1(2)] idx(2) ltk a_p a_idx by simp
    have e: "?p < length (m_keys ?h1)" using p(1) by simp
    have "\<exists>h'. move_up_loop lt key ?p ?h1 = Some h' \<and> sift_post lt 1 (fill ?h1 ?p key) h'"
      by (rule less.IH[OF p(3) wf1 p1(1) e ok1])
    then obtain h' where h': "move_up_loop lt key ?p ?h1 = Some h'" "sift_post lt 1 (fill ?h1 ?p key) h'"
      by blast
    have "mset (m_keys (fill ?h1 ?p key)) = mset ?a"
      using keys1 mset_swap[of ?p ?a idx] idx(2) p(1) by (simp add: list_update_swap[of idx ?p])
    moreover have "m_keys (fill ?h1 ?p key) ! 0 = ?a ! 0"
      using idx(1) p1(1) by simp
    ultimately have "sift_post lt 1 ?g h'"
      using h'(2) by (simp add: sift_post_def)
    with r h'(1) show ?thesis by simp
  qed
qed

section \<open>The concrete scenario on a heap of capacity 5\<close>

text \<open>
  Claim C3, as stated: after the insertions of 4, 1 and 3, the extraction of 1, the
  insertion of 0 and \<open>erase(3)\<close>, the next \<open>erase_min()\<close> returns 4. It does not:
  the heap then holds 0 and 4, and \<open>erase_min\<close> returns 0.
\<close>

theorem scenario_last_erase_min_not_4:
  "map_option fst (erase_min int_lt \<lparr>m_keys = [-1, 0, 4], m_indices = [1, 0, 0, 0, 2]\<rparr>) \<noteq> Some 4
   \<and> erase (int_lt) 3 \<lparr>m_keys = [-1, 0, 4, 3], m_indices = [1, 0, 0, 3, 2]\<rparr>
       = Some \<lparr>m_keys = [-1, 0, 4], m_indices = [1, 0, 0, 0, 2]\<rparr>
   \<and> heap_insert int_lt 0 \<lparr>m_keys = [-1, 3, 4], m_indices = [0, 0, 0, 1, 2]\<rparr>
       = Some \<lparr>m_keys = [-1, 0, 4, 3], m_indices = [1, 0, 0, 3, 2]\<rparr>
   \<and> erase_min int_lt \<lparr>m_keys = [-1, 1, 4, 3], m_indices = [0, 1, 0, 3, 2]\<rparr>
       = Some (1, \<lparr>m_keys = [-1, 3, 4], m_indices = [0, 0, 0, 1, 2]\<rparr>)
   \<and> heap_insert int_lt 3 \<lparr>m_keys = [-1, 1, 4], m_indices = [0, 1, 0, 0, 2]\<rparr>
       = Some \<lparr>m_keys = [-1, 1, 4, 3], m_indices = [0, 1, 0, 3, 2]\<rparr>
   \<and> heap_insert int_lt 1 \<lparr>m_keys = [-1, 4], m_indices = [0, 0, 0, 0, 1]\<rparr>
       = Some \<lparr>m_keys = [-1, 1, 4], m_indices = [0, 1, 0, 0, 2]\<rparr>
   \<and> heap_insert int_lt 4 (heap_init 5) = Some \<lparr>m_keys = [-1, 4], m_indices = [0, 0, 0, 0, 1]\<rparr>"
  by code_simp

text \<open>
  Claim C3, amended: on a heap of capacity 5 with the ascending order, after
  \<open>insert(4)\<close>, \<open>insert(1)\<close>, \<open>insert(3)\<close> the minimum is 1; \<open>erase_min()\<close>
  returns 1 and the minimum is then 3; after \<open>insert(0)\<close> the minimum is 0; after
  \<open>erase(3)\<close> the next \<open>erase_min()\<close> returns 0 and leaves the key 4, and one more
  \<open>erase_min()\<close> returns 4 and leaves the heap empty.
\<close>

theorem scenario_capacity_5:
  "heap_insert int_lt 4 (heap_init 5) = Some \<lparr>m_keys = [-1, 4], m_indices = [0, 0, 0, 0, 1]\<rparr>
   \<and> heap_insert int_lt 1 \<lparr>m_keys = [-1, 4], m_indices = [0, 0, 0, 0, 1]\<rparr>
       = Some \<lparr>m_keys = [-1, 1, 4], m_indices = [0, 1, 0, 0, 2]\<rparr>
   \<and> heap_insert int_lt 3 \<lparr>m_keys = [-1, 1, 4], m_indices = [0, 1, 0, 0, 2]\<rparr>
       = Some \<lparr>m_keys = [-1, 1, 4, 3], m_indices = [0, 1, 0, 3, 2]\<rparr>
   \<and> min_value \<lparr>m_keys = [-1, 1, 4, 3], m_indices = [0, 1, 0, 3, 2]\<rparr> = Some 1
   \<and> erase_min int_lt \<lparr>m_keys = [-1, 1, 4, 3], m_indices = [0, 1, 0, 3, 2]\<rparr>
       = Some (1, \<lparr>m_keys = [-1, 3, 4], m_indices = [0, 0, 0, 1, 2]\<rparr>)
   \<and> min_value \<lparr>m_keys = [-1, 3, 4], m_indices = [0, 0, 0, 1, 2]\<rparr> = Some 3
   \<and> heap_insert int_lt 0 \<lparr>m_keys = [-1, 3, 4], m_indices = [0, 0, 0, 1, 2]\<rparr>
       = Some \<lparr>m_keys = [-1, 0, 4, 3], m_indices = [1, 0, 0, 3, 2]\<rparr>
   \<and> min_value \<lparr>m_keys = [-1, 0, 4, 3], m_indices = [1, 0, 0, 3, 2]\<rparr> = Some 0
   \<and> erase int_lt 3 \<lparr>m_keys = [-1, 0, 4, 3], m_indices = [1, 0, 0, 3, 2]\<rparr>
       = Some \<lparr>m_keys = [-1, 0, 4], m_indices = [1, 0, 0, 0, 2]\<rparr>
   \<and> erase_min int_lt \<lparr>m_keys = [-1, 0, 4], m_indices = [1, 0, 0, 0, 2]\<rparr>
       = Some (0, \<lparr>m_keys = [-1, 4], m_indices = [0, 0, 0, 0, 1]\<rparr>)
   \<and> erase_min int_lt \<lparr>m_keys = [-1, 4], m_indices = [0, 0, 0, 0, 1]\<rparr>
       = Some (4, \<lparr>m_keys = [-1], m_indices = [0, 0, 0, 0, 0]\<rparr>)
   \<and> heap_empty \<lparr>m_keys = [-1], m_indices = [0, 0, 0, 0, 0]\<rparr>"
  by code_simp

theorem scenario_capacity_5_witness:
  "erase_min int_lt \<lparr>m_keys = [-1, 0, 4], m_indices = [1, 0, 0, 0, 2]\<rparr>
     = Some (0, \<lparr>m_keys = [-1, 4], m_indices = [0, 0, 0, 0, 1]\<rparr>)
   \<and> heap_empty \<lparr>m_keys = [-1], m_indices = [0, 0, 0, 0, 0]\<rparr>"
  using scenario_capacity_5 by blast

section \<open>The public operations keep the invariant\<close>

lemma fill_self:
  assumes "well_formed h" "1 \<le> idx" "idx < length (m_keys h)"
  shows "fill h idx (m_keys h ! idx) = h"
proof -
  have "index_ok h" using assms(1) by (simp add: well_formed_def)
  from index_okD[OF this assms(2,3)]
  have "(m_indices h)[nat (m_keys h ! idx) := idx] = m_indices h"
    by (metis list_update_id)
  then show ?thesis by (simp add: fill_def)
qed

lemma move_up_correct:
  assumes "strict_weak_order lt" "well_formed h" "1 \<le> idx" "idx < length (m_keys h)"
    and "up_ok lt (m_keys h) idx"
  shows "\<exists>h'. move_up lt idx h = Some h' \<and> sift_post lt 1 h h'"
proof -
  note fs = fill_self[OF assms(2,3,4)]
  have "\<exists>h'. move_up_loop lt (m_keys h ! idx) idx h = Some h' \<and> sift_post lt 1 (fill h idx (m_keys h ! idx)) h'"
    using assms(2-) by (intro move_up_loop_correct[OF assms(1)]) (simp_all add: fs)
  then show ?thesis using assms(4) by (simp add: move_up_def fs)
qed

lemma move_down_correct:
  assumes "strict_weak_order lt" "well_formed h" "1 \<le> idx" "idx < length (m_keys h)"
    and "m \<le> idx" "down_ok lt (m_keys h) m idx"
  shows "\<exists>h'. move_down lt idx h = Some h' \<and> sift_post lt m h h'"
proof -
  note fs = fill_self[OF assms(2,3,4)]
  have "\<exists>h'. move_down_loop lt (m_keys h ! idx) (length (m_keys h)) idx h = Some h'
          \<and> sift_post lt m (fill h idx (m_keys h ! idx)) h'"
    using assms(2-) by (intro move_down_loop_correct[OF assms(1)]) (simp_all add: fs)
  then show ?thesis using assms(4) by (simp add: move_down_def fs)
qed

lemma sift_post_inv:
  "sift_post lt 1 g h' \<Longrightarrow> heap_inv lt h'"
  by (simp add: sift_post_def heap_inv_def heap_order_iff)

lemma heap_orderD:
  "heap_order lt h \<Longrightarrow> 2 \<le> c \<Longrightarrow> c < length (m_keys h) \<Longrightarrow> \<not> lt (m_keys h ! c) (m_keys h ! parent c)"
  by (simp add: heap_order_def)

lemma contains_False_iff:
  "is_valid_value h key \<Longrightarrow> contains h key = Some False \<longleftrightarrow> m_indices h ! nat key = 0"
  by (auto simp: contains_def is_valid_value_def)

lemma contains_True_iff:
  "contains h key = Some True \<longleftrightarrow> 0 \<le> key \<and> key < int (length (m_indices h)) \<and> m_indices h ! nat key \<noteq> 0"
  by (auto simp: contains_def)

lemma absent_not_in_keys:
  assumes "well_formed h" "m_indices h ! nat key = 0" "1 \<le> i" "i < length (m_keys h)"
  shows "m_keys h ! i \<noteq> key"
proof
  assume "m_keys h ! i = key"
  moreover have "m_indices h ! nat (m_keys h ! i) = i"
    using assms by (simp add: well_formed_def index_okD)
  ultimately show False using assms(2,3) by simp
qed

lemma well_formed_pushed:
  assumes wf: "well_formed h" and v: "is_valid_value h key" and ab: "m_indices h ! nat key = 0"
  shows "well_formed (pushed h key)"
proof -
  let ?g = "pushed h key"
  let ?n = "length (m_keys h)"
  have ok: "index_ok h" and snd: "index_sound h" and ne: "m_keys h \<noteq> []"
    using wf by (simp_all add: well_formed_def)
  have kr: "0 \<le> key" "nat key < length (m_indices h)" using v by (auto simp: is_valid_value_def)
  have "index_ok ?g"
  proof (rule index_okI)
    fix i assume i: "1 \<le> i" "i < length (m_keys ?g)"
    show "0 \<le> m_keys ?g ! i \<and> m_keys ?g ! i < int (length (m_indices ?g)) \<and>
          m_indices ?g ! nat (m_keys ?g ! i) = i"
    proof (cases "i = ?n")
      case True
      then show ?thesis using kr by (simp add: pushed_def)
    next
      case False
      then have il: "i < ?n" using i(2) by (simp add: pushed_def)
      note d = index_okD[OF ok i(1) il]
      have "m_keys h ! i \<noteq> key" by (rule absent_not_in_keys[OF wf ab i(1) il])
      then have "nat (m_keys h ! i) \<noteq> nat key" using d(1) kr(1) by (simp add: eq_nat_nat_iff)
      then show ?thesis using d il by (simp add: pushed_def nth_append)
    qed
  qed
  moreover have "index_sound ?g"
  proof (rule index_soundI)
    fix k assume k: "k < length (m_indices ?g)" "m_indices ?g ! k \<noteq> 0"
    show "m_indices ?g ! k < length (m_keys ?g) \<and> m_keys ?g ! (m_indices ?g ! k) = int k"
    proof (cases "k = nat key")
      case True
      then show ?thesis using kr by (simp add: pushed_def)
    next
      case False
      then have e: "m_indices ?g ! k = m_indices h ! k" by (simp add: pushed_def)
      have k': "k < length (m_indices h)" using k(1) by (simp add: pushed_def)
      from index_soundD[OF snd k'] k(2) e
      show ?thesis by (simp add: pushed_def nth_append)
    qed
  qed
  ultimately show ?thesis by (simp add: well_formed_def pushed_def)
qed

lemma up_ok_pushed:
  assumes "heap_order lt h" "m_keys h \<noteq> []"
  shows "up_ok lt (m_keys h @ [key]) (length (m_keys h))"
  unfolding up_ok_def
proof (intro conjI allI impI)
  fix c assume c: "2 \<le> c \<and> c < length (m_keys h @ [key]) \<and> c \<noteq> length (m_keys h)"
  then have cl: "c < length (m_keys h)" "parent c < length (m_keys h)" by (auto simp: parent_def)
  show "\<not> lt ((m_keys h @ [key]) ! c) ((m_keys h @ [key]) ! parent c)"
    using heap_orderD[OF assms(1) _ cl(1)] c cl by (simp add: nth_append)
next
  fix c assume "2 \<le> length (m_keys h)" "c < length (m_keys h @ [key]) \<and> parent c = length (m_keys h)"
  then have False by (auto simp: parent_def)
  then show "\<not> lt ((m_keys h @ [key]) ! c) ((m_keys h @ [key]) ! parent (length (m_keys h)))" ..
qed

lemma heap_insert_correct:
  assumes swo: "strict_weak_order lt" and inv: "heap_inv lt h"
    and v: "is_valid_value h key" and c: "contains h key = Some False"
  shows "\<exists>h'. heap_insert lt key h = Some h' \<and> heap_inv lt h' \<and>
           mset (m_keys h') = mset (m_keys h) + {#key#} \<and>
           length (m_indices h') = length (m_indices h) \<and>
           length (m_keys h') = Suc (length (m_keys h)) \<and> m_keys h' ! 0 = m_keys h ! 0"
proof -
  have wf: "well_formed h" and ord: "heap_order lt h" using inv by (simp_all add: heap_inv_def)
  have ab: "m_indices h ! nat key = 0" using c v by (simp add: contains_False_iff)
  have ne: "m_keys h \<noteq> []" using wf by (simp add: well_formed_def)
  have e: "heap_insert lt key h = move_up lt (length (m_keys h)) (pushed h key)"
    using c v by (simp add: heap_insert_def pushed_def Let_def)
  have "\<exists>h'. move_up lt (length (m_keys h)) (pushed h key) = Some h' \<and> sift_post lt 1 (pushed h key) h'"
  proof (rule move_up_correct[OF swo well_formed_pushed[OF wf v ab]])
    show "1 \<le> length (m_keys h)" using ne by (cases "m_keys h") simp_all
    show "length (m_keys h) < length (m_keys (pushed h key))" by (simp add: pushed_def)
    show "up_ok lt (m_keys (pushed h key)) (length (m_keys h))"
      using up_ok_pushed[OF ord ne] by (simp add: pushed_def)
  qed
  then obtain h' where h': "move_up lt (length (m_keys h)) (pushed h key) = Some h'"
    "sift_post lt 1 (pushed h key) h'" by blast
  have "m_keys (pushed h key) ! 0 = m_keys h ! 0" using ne by (simp add: pushed_def nth_append)
  then show ?thesis using e h' sift_post_inv[OF h'(2)]
    by (simp add: sift_post_def pushed_def)
qed

lemma swo_trans:
  assumes "strict_weak_order lt" "lt a b" "lt b c"
  shows "lt a c"
proof (rule ccontr)
  assume "\<not> lt a c"
  moreover have "\<not> lt c b" by (rule swo_asym[OF assms(1,3)])
  ultimately have "\<not> lt a b" by (rule swo_ntrans[OF assms(1)])
  then show False using assms(2) by simp
qed

lemma moved_last_sel:
  "length (m_keys (moved_last h idx)) = length (m_keys h) - 1"
  "length (m_indices (moved_last h idx)) = length (m_indices h)"
  by (simp_all add: moved_last_def)

lemma moved_last_nth:
  "c < length (m_keys h) - 1 \<Longrightarrow>
     m_keys (moved_last h idx) ! c = (if c = idx then last (m_keys h) else m_keys h ! c)"
  by (simp add: moved_last_def nth_butlast)

lemma dropped_last_nth:
  "c < length (m_keys h) - 1 \<Longrightarrow> m_keys (dropped_last h) ! c = m_keys h ! c"
  by (simp add: dropped_last_def nth_butlast)

lemma last_slot: "xs \<noteq> [] \<Longrightarrow> last xs = xs ! (length xs - 1)"
  by (rule last_conv_nth)

lemma well_formed_moved_last:
  assumes wf: "well_formed h" and idx: "1 \<le> idx" "idx + 1 < length (m_keys h)"
  shows "well_formed (moved_last h idx)"
proof -
  let ?g = "moved_last h idx"
  let ?n = "length (m_keys h)"
  let ?l = "last (m_keys h)"
  let ?k = "m_keys h ! idx"
  have ok: "index_ok h" and snd: "index_sound h" and ne: "m_keys h \<noteq> []"
    using wf by (simp_all add: well_formed_def)
  have l: "?l = m_keys h ! (?n - 1)" using ne by (rule last_slot)
  have n1: "1 \<le> ?n - 1" "?n - 1 < ?n" "idx \<noteq> ?n - 1" "idx < ?n" using idx by simp_all
  note dl = index_okD[OF ok n1(1,2), folded l]
  note dk = index_okD[OF ok idx(1) n1(4)]
  have lk: "?l \<noteq> ?k" unfolding l using well_formed_distinct[OF wf n1(1,2) idx(1) n1(4)] n1(3) by simp
  then have nlk: "nat ?l \<noteq> nat ?k" using dl(1) dk(1) by (simp add: eq_nat_nat_iff)
  have inds: "m_indices ?g = (m_indices h)[nat ?l := idx, nat ?k := 0]" by (simp add: moved_last_def)
  have "index_ok ?g"
  proof (rule index_okI)
    fix i assume i: "1 \<le> i" "i < length (m_keys ?g)"
    then have il: "i < ?n - 1" "i < ?n" "i \<noteq> ?n - 1" by (simp_all add: moved_last_sel)
    note d = index_okD[OF ok i(1) il(2)]
    show "0 \<le> m_keys ?g ! i \<and> m_keys ?g ! i < int (length (m_indices ?g)) \<and>
          m_indices ?g ! nat (m_keys ?g ! i) = i"
    proof (cases "i = idx")
      case True
      then show ?thesis using dl dk nlk il by (simp add: moved_last_nth inds)
    next
      case False
      have "m_keys h ! i \<noteq> ?k" using well_formed_distinct[OF wf i(1) il(2) idx(1) n1(4)] False by simp
      then have a: "nat (m_keys h ! i) \<noteq> nat ?k" using d(1) dk(1) by (simp add: eq_nat_nat_iff)
      have "m_keys h ! i \<noteq> ?l" unfolding l using well_formed_distinct[OF wf i(1) il(2) n1(1,2)] il(3) by simp
      then have b: "nat (m_keys h ! i) \<noteq> nat ?l" using d(1) dl(1) by (simp add: eq_nat_nat_iff)
      show ?thesis using False d a b il by (simp add: moved_last_nth inds)
    qed
  qed
  moreover have "index_sound ?g"
  proof (rule index_soundI)
    fix k assume k: "k < length (m_indices ?g)" "m_indices ?g ! k \<noteq> 0"
    then have k': "k < length (m_indices h)" by (simp add: moved_last_sel)
    have kk: "k \<noteq> nat ?k" using k k' by (auto simp: inds)
    show "m_indices ?g ! k < length (m_keys ?g) \<and> m_keys ?g ! (m_indices ?g ! k) = int k"
    proof (cases "k = nat ?l")
      case True
      then show ?thesis using kk idx dl k' by (simp add: inds moved_last_sel moved_last_nth)
    next
      case False
      have e: "m_indices ?g ! k = m_indices h ! k" using kk False by (simp add: inds)
      with k(2) have nz: "m_indices h ! k \<noteq> 0" by simp
      note ds = index_soundD[OF snd k' nz]
      have "m_indices h ! k \<noteq> ?n - 1" using ds(2) False l by auto
      moreover have "m_indices h ! k \<noteq> idx" using ds(2) kk by auto
      ultimately show ?thesis using ds e by (simp add: moved_last_sel moved_last_nth)
    qed
  qed
  moreover have "m_keys ?g \<noteq> []" using idx moved_last_sel(1)[of h idx] by (cases "m_keys ?g") simp_all
  ultimately show ?thesis by (simp add: well_formed_def)
qed

lemma well_formed_dropped_last:
  assumes wf: "well_formed h" and n: "2 \<le> length (m_keys h)"
  shows "well_formed (dropped_last h)"
proof -
  let ?g = "dropped_last h"
  let ?n = "length (m_keys h)"
  let ?l = "last (m_keys h)"
  have ok: "index_ok h" and snd: "index_sound h" and ne: "m_keys h \<noteq> []"
    using wf by (simp_all add: well_formed_def)
  have l: "?l = m_keys h ! (?n - 1)" using ne by (rule last_slot)
  have n1: "1 \<le> ?n - 1" "?n - 1 < ?n" using n by simp_all
  note dl = index_okD[OF ok n1(1,2), folded l]
  have inds: "m_indices ?g = (m_indices h)[nat ?l := 0]" by (simp add: dropped_last_def)
  have len: "length (m_keys ?g) = ?n - 1" by (simp add: dropped_last_def)
  have "index_ok ?g"
  proof (rule index_okI)
    fix i assume i: "1 \<le> i" "i < length (m_keys ?g)"
    then have il: "i < ?n - 1" "i < ?n" "i \<noteq> ?n - 1" by (simp_all add: len)
    note d = index_okD[OF ok i(1) il(2)]
    have "m_keys h ! i \<noteq> ?l" unfolding l using well_formed_distinct[OF wf i(1) il(2) n1(1,2)] il(3) by simp
    then have b: "nat (m_keys h ! i) \<noteq> nat ?l" using d(1) dl(1) by (simp add: eq_nat_nat_iff)
    show "0 \<le> m_keys ?g ! i \<and> m_keys ?g ! i < int (length (m_indices ?g)) \<and>
          m_indices ?g ! nat (m_keys ?g ! i) = i"
      using d b il by (simp add: dropped_last_nth inds)
  qed
  moreover have "index_sound ?g"
  proof (rule index_soundI)
    fix k assume k: "k < length (m_indices ?g)" "m_indices ?g ! k \<noteq> 0"
    then have k': "k < length (m_indices h)" by (simp add: inds)
    have kk: "k \<noteq> nat ?l" using k k' by (auto simp: inds)
    have e: "m_indices ?g ! k = m_indices h ! k" using kk by (simp add: inds)
    with k(2) have nz: "m_indices h ! k \<noteq> 0" by simp
    note ds = index_soundD[OF snd k' nz]
    have "m_indices h ! k \<noteq> ?n - 1" using ds(2) kk l by auto
    then show "m_indices ?g ! k < length (m_keys ?g) \<and> m_keys ?g ! (m_indices ?g ! k) = int k"
      using ds e by (simp add: len dropped_last_nth)
  qed
  moreover have "m_keys ?g \<noteq> []" using n len by (cases "m_keys ?g") simp_all
  ultimately show ?thesis by (simp add: well_formed_def)
qed

lemma mset_moved_last:
  assumes "idx + 1 < length (m_keys h)"
  shows "mset (m_keys (moved_last h idx)) = mset (m_keys h) - {#m_keys h ! idx#}"
proof -
  obtain xs l where ks: "m_keys h = xs @ [l]"
    using assms by (cases "m_keys h" rule: rev_cases) auto
  have i: "idx < length xs" using assms ks by simp
  have "m_keys (moved_last h idx) = xs[idx := l]"
    using i by (simp add: moved_last_def ks list_update_append)
  moreover have "m_keys h ! idx = xs ! idx" using i by (simp add: ks nth_append)
  moreover have "xs ! idx \<in># mset xs" using i by simp
  ultimately show ?thesis using i by (simp add: ks mset_update)
qed

lemma mset_dropped_last:
  assumes "m_keys h \<noteq> []"
  shows "mset (m_keys (dropped_last h)) = mset (m_keys h) - {#last (m_keys h)#}"
  using assms by (cases "m_keys h" rule: rev_cases) (auto simp: dropped_last_def)

lemma down_ok_moved_last:
  assumes swo: "strict_weak_order lt" and ord: "heap_order lt h"
    and idx: "1 \<le> idx" "idx + 1 < length (m_keys h)"
    and top: "parent idx = 0 \<or> \<not> lt (last (m_keys h)) (m_keys h ! parent idx)"
  shows "down_ok lt (m_keys (moved_last h idx)) 1 idx"
  unfolding down_ok_def
proof (intro conjI allI impI)
  let ?a = "m_keys (moved_last h idx)"
  fix c assume c: "2 \<le> c \<and> c < length ?a \<and> 1 \<le> parent c \<and> parent c \<noteq> idx"
  then have cl: "c < length (m_keys h) - 1" "parent c < length (m_keys h) - 1" "c < length (m_keys h)"
    by (auto simp: moved_last_sel parent_def)
  have o: "\<not> lt (m_keys h ! c) (m_keys h ! parent c)" using heap_orderD[OF ord _ cl(3)] c by simp
  show "\<not> lt (?a ! c) (?a ! parent c)"
  proof (cases "c = idx")
    case True
    then show ?thesis using top c cl by (simp add: moved_last_nth)
  next
    case False
    then show ?thesis using o c cl by (simp add: moved_last_nth)
  qed
next
  let ?a = "m_keys (moved_last h idx)"
  fix c assume p: "1 \<le> parent idx" and c: "c < length ?a \<and> parent c = idx"
  then have cl: "c < length (m_keys h) - 1" "c < length (m_keys h)" "c \<noteq> idx" "2 \<le> c" "2 \<le> idx"
    "idx < length (m_keys h)" "parent idx \<noteq> idx" "parent idx < length (m_keys h) - 1"
    using idx by (auto simp: moved_last_sel parent_def)
  have "\<not> lt (m_keys h ! c) (m_keys h ! idx)" using heap_orderD[OF ord cl(4,2)] c by simp
  moreover have "\<not> lt (m_keys h ! idx) (m_keys h ! parent idx)" by (rule heap_orderD[OF ord cl(5,6)])
  ultimately have "\<not> lt (m_keys h ! c) (m_keys h ! parent idx)" by (rule swo_ntrans[OF swo])
  then show "\<not> lt (?a ! c) (?a ! parent idx)" using cl by (simp add: moved_last_nth)
qed

lemma up_ok_moved_last:
  assumes swo: "strict_weak_order lt" and ord: "heap_order lt h"
    and idx: "1 \<le> idx" "idx + 1 < length (m_keys h)"
    and top: "parent idx \<noteq> 0" "lt (last (m_keys h)) (m_keys h ! parent idx)"
  shows "up_ok lt (m_keys (moved_last h idx)) idx"
proof -
  let ?a = "m_keys (moved_last h idx)"
  have i2: "2 \<le> idx" "idx < length (m_keys h)" "parent idx \<noteq> idx" "parent idx < length (m_keys h) - 1"
    using top(1) idx by (auto simp: parent_def)
  have gp: "\<not> lt (m_keys h ! c) (m_keys h ! parent idx)"
    if c: "c < length ?a" "parent c = idx" for c
  proof -
    have cl: "c < length (m_keys h)" "2 \<le> c" using c idx by (auto simp: moved_last_sel parent_def)
    have "\<not> lt (m_keys h ! c) (m_keys h ! idx)" using heap_orderD[OF ord cl(2,1)] c by simp
    moreover have "\<not> lt (m_keys h ! idx) (m_keys h ! parent idx)" by (rule heap_orderD[OF ord i2(1,2)])
    ultimately show ?thesis by (rule swo_ntrans[OF swo])
  qed
  show ?thesis
    unfolding up_ok_def
  proof (intro conjI allI impI)
    fix c assume c: "2 \<le> c \<and> c < length ?a \<and> c \<noteq> idx"
    then have cl: "c < length (m_keys h) - 1" "parent c < length (m_keys h) - 1" "c < length (m_keys h)"
      by (auto simp: moved_last_sel parent_def)
    have o: "\<not> lt (m_keys h ! c) (m_keys h ! parent c)" using heap_orderD[OF ord _ cl(3)] c by simp
    show "\<not> lt (?a ! c) (?a ! parent c)"
    proof (cases "parent c = idx")
      case True
      have "\<not> lt (m_keys h ! c) (last (m_keys h))"
      proof
        assume "lt (m_keys h ! c) (last (m_keys h))"
        then have "lt (m_keys h ! c) (m_keys h ! parent idx)" using top(2) by (rule swo_trans[OF swo])
        then show False using gp[of c] c True by simp
      qed
      then show ?thesis using True c cl by (simp add: moved_last_nth)
    next
      case False
      then show ?thesis using o c cl by (simp add: moved_last_nth)
    qed
  next
    fix c assume "2 \<le> idx" and c: "c < length ?a \<and> parent c = idx"
    then have cl: "c < length (m_keys h) - 1" "c \<noteq> idx" using idx by (auto simp: moved_last_sel parent_def)
    show "\<not> lt (?a ! c) (?a ! parent idx)"
      using gp[of c] c cl i2 by (simp add: moved_last_nth)
  qed
qed

lemma last_range:
  assumes wf: "well_formed h" and n: "2 \<le> length (m_keys h)"
  shows "0 \<le> last (m_keys h)" "last (m_keys h) < int (length (m_indices h))"
proof -
  have ne: "m_keys h \<noteq> []" using n by auto
  have l: "last (m_keys h) = m_keys h ! (length (m_keys h) - 1)" using ne by (rule last_slot)
  show "0 \<le> last (m_keys h)" "last (m_keys h) < int (length (m_indices h))"
    unfolding l using well_formed_key_range[OF wf, of "length (m_keys h) - 1"] n by simp_all
qed

lemma erase_min_correct:
  assumes swo: "strict_weak_order lt" and inv: "heap_inv lt h" and ne: "\<not> heap_empty h"
  shows "\<exists>h'. erase_min lt h = Some (m_keys h ! 1, h') \<and> removed lt h (m_keys h ! 1) h'"
proof -
  have wf: "well_formed h" and ord: "heap_order lt h" using inv by (simp_all add: heap_inv_def)
  have n2: "2 \<le> length (m_keys h)"
    using wf ne by (cases "m_keys h") (auto simp: well_formed_def heap_empty_def Suc_le_eq)
  have ne': "m_keys h \<noteq> []" using n2 by auto
  show ?thesis
  proof (cases "length (m_keys h) = 2")
    case True
    have l: "last (m_keys h) = m_keys h ! 1" using True ne' by (simp add: last_conv_nth)
    have e: "erase_min lt h = Some (m_keys h ! 1, dropped_last h)"
      using last_range[OF wf n2] True ne ne'
      by (simp add: erase_min_def l Let_def clear_index_def pop_back_def dropped_last_def)
    have "heap_order lt (dropped_last h)" using True
      by (simp add: heap_order_def dropped_last_def)
    then have "removed lt h (m_keys h ! 1) (dropped_last h)"
      using well_formed_dropped_last[OF wf n2] mset_dropped_last[OF ne'] True l dropped_last_nth[of 0 h]
      by (auto simp: removed_def heap_inv_def dropped_last_def)
    with e show ?thesis by blast
  next
    case False
    then have n3: "1 + 1 < length (m_keys h)" using n2 by simp
    let ?g = "moved_last h 1"
    have e: "erase_min lt h = (case move_down lt 1 ?g of None \<Rightarrow> None | Some h4 \<Rightarrow> Some (m_keys h ! 1, h4))"
      using last_range[OF wf n2] well_formed_key_range[OF wf, of 1] False ne n2 ne'
      by (simp add: erase_min_def Let_def place_eq fill_def clear_index_def pop_back_def moved_last_def
            cong: option.case_cong)
    have wfg: "well_formed ?g" using well_formed_moved_last[OF wf _ n3] by simp
    have ok: "down_ok lt (m_keys ?g) 1 1"
      using down_ok_moved_last[OF swo ord _ n3] by (simp add: parent_def)
    have "\<exists>h'. move_down lt 1 ?g = Some h' \<and> sift_post lt 1 ?g h'"
      using n3 by (intro move_down_correct[OF swo wfg _ _ _ ok]) (simp_all add: moved_last_sel)
    then obtain h' where h': "move_down lt 1 ?g = Some h'" "sift_post lt 1 ?g h'" by blast
    have "removed lt h (m_keys h ! 1) h'"
      using h'(2) sift_post_inv[OF h'(2)] mset_moved_last[OF n3] n3 moved_last_nth[of 0 h 1]
      by (simp add: removed_def sift_post_def moved_last_sel)
    with e h'(1) show ?thesis by simp
  qed
qed

lemma erase_correct:
  assumes swo: "strict_weak_order lt" and inv: "heap_inv lt h" and c: "contains h key = Some True"
  shows "\<exists>h'. erase lt key h = Some h' \<and> removed lt h key h'"
proof -
  have wf: "well_formed h" and ord: "heap_order lt h" using inv by (simp_all add: heap_inv_def)
  let ?idx = "m_indices h ! nat key"
  have kr: "0 \<le> key" "nat key < length (m_indices h)" "?idx \<noteq> 0"
    using c by (auto simp: contains_True_iff)
  have snd: "index_sound h" using wf by (simp add: well_formed_def)
  note ds = index_soundD[OF snd kr(2,3)]
  have key: "m_keys h ! ?idx = key" using ds(2) kr(1) by simp
  have i1: "1 \<le> ?idx" using kr(3) by simp
  have n2: "2 \<le> length (m_keys h)" using ds(1) i1 by simp
  have ne: "m_keys h \<noteq> []" using n2 by auto
  show ?thesis
  proof (cases "?idx = length (m_keys h) - 1")
    case True
    have l: "last (m_keys h) = key" using True key ne by (simp add: last_conv_nth)
    have ie: "int ?idx = int (length (m_keys h)) - 1" using True n2 by (simp add: of_nat_diff)
    have e: "erase lt key h = Some (dropped_last h)"
      using last_range[OF wf n2] c ie
      by (simp add: erase_def l[symmetric] Let_def clear_index_def pop_back_def dropped_last_def ne)
    have "heap_order lt (dropped_last h)" using ord
      by (auto simp: heap_order_def dropped_last_def nth_butlast parent_def)
    then have "removed lt h key (dropped_last h)"
      using well_formed_dropped_last[OF wf n2] mset_dropped_last[OF ne] l n2 dropped_last_nth[of 0 h]
      by (auto simp: removed_def heap_inv_def dropped_last_def)
    with e show ?thesis by blast
  next
    case False
    then have n3: "?idx + 1 < length (m_keys h)" using ds(1) by simp
    let ?g = "moved_last h ?idx"
    let ?l = "last (m_keys h)"
    have pl: "parent ?idx < length (m_keys h) - 1" "parent ?idx \<noteq> ?idx" using n3 i1 by (auto simp: parent_def)
    have gp: "m_keys ?g ! parent ?idx = m_keys h ! parent ?idx" using pl by (simp add: moved_last_nth)
    have e: "erase lt key h =
       (if parent ?idx \<noteq> 0 \<and> lt ?l (m_keys h ! parent ?idx) then move_up lt ?idx ?g else move_down lt ?idx ?g)"
    proof -
      have ie: "int ?idx \<noteq> int (length (m_keys h)) - 1" using False n2 by (simp add: of_nat_diff)
      have g: "m_keys h \<noteq> []" "?idx < length (m_keys h)" "0 \<le> ?l" "?l < int (length (m_indices h))"
        "0 \<le> key" "key < int (length (m_indices h))"
        using ne ds(1) last_range[OF wf n2] kr by simp_all
      have st: "place h ?idx ?l = Some (fill h ?idx ?l)" using g by (simp add: place_eq)
      have st2: "clear_index (fill h ?idx ?l) key = Some ((fill h ?idx ?l)\<lparr>m_indices := (m_indices h)[nat ?l := ?idx, nat key := 0]\<rparr>)"
        using g by (simp add: clear_index_def)
      have st3: "pop_back ((fill h ?idx ?l)\<lparr>m_indices := (m_indices h)[nat ?l := ?idx, nat key := 0]\<rparr>) = Some ?g"
        using g key by (simp add: pop_back_def moved_last_def fill_def)
      show ?thesis
        unfolding erase_def using c ie g(1) pl gp
        by (simp add: Let_def st st2 st3 moved_last_sel)
    qed
    have wfg: "well_formed ?g" by (rule well_formed_moved_last[OF wf i1 n3])
    have il: "?idx < length (m_keys ?g)" using n3 by (simp add: moved_last_sel)
    have "\<exists>h'. erase lt key h = Some h' \<and> sift_post lt 1 ?g h'"
    proof (cases "parent ?idx \<noteq> 0 \<and> lt ?l (m_keys h ! parent ?idx)")
      case True
      have ok: "up_ok lt (m_keys ?g) ?idx"
        using up_ok_moved_last[OF swo ord i1 n3] True by simp
      show ?thesis using e True move_up_correct[OF swo wfg i1 il ok] by simp
    next
      case False
      have ok: "down_ok lt (m_keys ?g) 1 ?idx"
        using down_ok_moved_last[OF swo ord i1 n3] False by blast
      show ?thesis using e False move_down_correct[OF swo wfg i1 il i1 ok] by auto
    qed
    then obtain h' where h': "erase lt key h = Some h'" "sift_post lt 1 ?g h'" by blast
    have "removed lt h key h'"
      using h'(2) sift_post_inv[OF h'(2)] mset_moved_last[OF n3] n3 moved_last_nth[of 0 h ?idx] key i1
      by (simp add: removed_def sift_post_def moved_last_sel)
    with h'(1) show ?thesis by simp
  qed
qed

lemma sift_post_same: "sift_post lt m h h' \<Longrightarrow> same_keys h h'"
  by (simp add: sift_post_def same_keys_def)

lemma agree_exceptD: "agree_except lt lt' k \<Longrightarrow> a \<noteq> k \<Longrightarrow> b \<noteq> k \<Longrightarrow> lt' a b = lt a b"
  unfolding agree_except_def by blast

lemma contains_slot:
  assumes wf: "well_formed h" and c: "contains h key = Some True"
  shows "1 \<le> m_indices h ! nat key" "m_indices h ! nat key < length (m_keys h)"
    "m_keys h ! (m_indices h ! nat key) = key"
proof -
  have kr: "0 \<le> key" "nat key < length (m_indices h)" "m_indices h ! nat key \<noteq> 0"
    using c by (auto simp: contains_True_iff)
  have snd: "index_sound h" using wf by (simp add: well_formed_def)
  note ds = index_soundD[OF snd kr(2,3)]
  show "1 \<le> m_indices h ! nat key" using kr(3) by simp
  show "m_indices h ! nat key < length (m_keys h)" by (rule ds(1))
  show "m_keys h ! (m_indices h ! nat key) = key" using ds(2) kr(1) by simp
qed

lemma grandparent_ok:
  assumes swo: "strict_weak_order lt" and ord: "heap_order lt h"
    and c: "c < length (m_keys h)" "parent c = idx" "2 \<le> idx"
  shows "\<not> lt (m_keys h ! c) (m_keys h ! parent idx)"
proof -
  have cl: "2 \<le> c" "idx < length (m_keys h)" using c by (auto simp: parent_def)
  have "\<not> lt (m_keys h ! c) (m_keys h ! idx)" using heap_orderD[OF ord cl(1) c(1)] c(2) by simp
  moreover have "\<not> lt (m_keys h ! idx) (m_keys h ! parent idx)" by (rule heap_orderD[OF ord c(3) cl(2)])
  ultimately show ?thesis by (rule swo_ntrans[OF swo])
qed

lemma decreased_correct:
  assumes swo: "strict_weak_order lt" and swo': "strict_weak_order lt'"
    and inv: "heap_inv lt h" and c: "contains h key = Some True"
    and pd: "priority_decreased lt lt' key"
  shows "\<exists>h'. decreased lt' key h = Some h' \<and> heap_inv lt' h' \<and> same_keys h h'"
proof -
  have wf: "well_formed h" and ord: "heap_order lt h" using inv by (simp_all add: heap_inv_def)
  let ?idx = "m_indices h ! nat key"
  note sl = contains_slot[OF wf c]
  have ag: "agree_except lt lt' key" and sm: "\<And>x. \<not> lt x key \<Longrightarrow> \<not> lt' x key"
    using pd by (auto simp: priority_decreased_def)
  have other: "m_keys h ! c \<noteq> key" if "1 \<le> c" "c < length (m_keys h)" "c \<noteq> ?idx" for c
    using well_formed_distinct[OF wf that(1,2) sl(1,2) that(3)] sl(3) by simp
  have ok: "up_ok lt' (m_keys h) ?idx"
    unfolding up_ok_def
  proof (intro conjI allI impI)
    fix c assume c: "2 \<le> c \<and> c < length (m_keys h) \<and> c \<noteq> ?idx"
    then have o: "\<not> lt (m_keys h ! c) (m_keys h ! parent c)" using heap_orderD[OF ord] by blast
    have ck: "m_keys h ! c \<noteq> key" using other[of c] c by simp
    show "\<not> lt' (m_keys h ! c) (m_keys h ! parent c)"
    proof (cases "parent c = ?idx")
      case True
      then show ?thesis using o sm[of "m_keys h ! c"] sl(3) by simp
    next
      case False
      have "1 \<le> parent c" "parent c < length (m_keys h)" using c by (auto simp: parent_def)
      from other[OF this False] have "m_keys h ! parent c \<noteq> key" .
      then show ?thesis using o agree_exceptD[OF ag ck] by simp
    qed
  next
    fix c assume i2: "2 \<le> ?idx" and c: "c < length (m_keys h) \<and> parent c = ?idx"
    then have "1 \<le> c" "c \<noteq> ?idx" "1 \<le> parent ?idx" "parent ?idx < length (m_keys h)" "parent ?idx \<noteq> ?idx"
      using sl(2) by (auto simp: parent_def)
    then have "m_keys h ! c \<noteq> key" "m_keys h ! parent ?idx \<noteq> key"
      using other[of c] other[of "parent ?idx"] c by simp_all
    then show "\<not> lt' (m_keys h ! c) (m_keys h ! parent ?idx)"
      using grandparent_ok[OF swo ord _ _ i2, of c] c agree_exceptD[OF ag] by simp
  qed
  from move_up_correct[OF swo' wf sl(1,2) ok]
  obtain h' where h': "move_up lt' ?idx h = Some h'" "sift_post lt' 1 h h'" by blast
  then show ?thesis using c sift_post_inv[OF h'(2)] sift_post_same[OF h'(2)]
    by (simp add: decreased_def)
qed

lemma increased_correct:
  assumes swo: "strict_weak_order lt" and swo': "strict_weak_order lt'"
    and inv: "heap_inv lt h" and c: "contains h key = Some True"
    and pd: "priority_increased lt lt' key"
  shows "\<exists>h'. increased lt' key h = Some h' \<and> heap_inv lt' h' \<and> same_keys h h'"
proof -
  have wf: "well_formed h" and ord: "heap_order lt h" using inv by (simp_all add: heap_inv_def)
  let ?idx = "m_indices h ! nat key"
  note sl = contains_slot[OF wf c]
  have ag: "agree_except lt lt' key" and sm: "\<And>x. \<not> lt key x \<Longrightarrow> \<not> lt' key x"
    using pd by (auto simp: priority_increased_def)
  have other: "m_keys h ! c \<noteq> key" if "1 \<le> c" "c < length (m_keys h)" "c \<noteq> ?idx" for c
    using well_formed_distinct[OF wf that(1,2) sl(1,2) that(3)] sl(3) by simp
  have ok: "down_ok lt' (m_keys h) 1 ?idx"
    unfolding down_ok_def
  proof (intro conjI allI impI)
    fix c assume c: "2 \<le> c \<and> c < length (m_keys h) \<and> 1 \<le> parent c \<and> parent c \<noteq> ?idx"
    then have o: "\<not> lt (m_keys h ! c) (m_keys h ! parent c)" using heap_orderD[OF ord] by blast
    have "parent c < length (m_keys h)" using c by (auto simp: parent_def)
    with c other[of "parent c"] have pk: "m_keys h ! parent c \<noteq> key" by simp
    show "\<not> lt' (m_keys h ! c) (m_keys h ! parent c)"
    proof (cases "c = ?idx")
      case True
      then show ?thesis using o sm[of "m_keys h ! parent c"] sl(3) by simp
    next
      case False
      then have "m_keys h ! c \<noteq> key" using other[of c] c by simp
      then show ?thesis using o agree_exceptD[OF ag _ pk] by simp
    qed
  next
    fix c assume p1: "1 \<le> parent ?idx" and c: "c < length (m_keys h) \<and> parent c = ?idx"
    then have i2: "2 \<le> ?idx" by (auto simp: parent_def)
    have "1 \<le> c" "c \<noteq> ?idx" "parent ?idx < length (m_keys h)" "parent ?idx \<noteq> ?idx"
      using sl(2) c i2 by (auto simp: parent_def)
    then have "m_keys h ! c \<noteq> key" "m_keys h ! parent ?idx \<noteq> key"
      using other[of c] other[of "parent ?idx"] c p1 by simp_all
    then show "\<not> lt' (m_keys h ! c) (m_keys h ! parent ?idx)"
      using grandparent_ok[OF swo ord _ _ i2, of c] c agree_exceptD[OF ag] by simp
  qed
  from move_down_correct[OF swo' wf sl(1,2) sl(1) ok]
  obtain h' where h': "move_down lt' ?idx h = Some h'" "sift_post lt' 1 h h'" by blast
  then show ?thesis using c sift_post_inv[OF h'(2)] sift_post_same[OF h'(2)]
    by (simp add: increased_def)
qed

lemma same_keys_trans: "same_keys a b \<Longrightarrow> same_keys b c \<Longrightarrow> same_keys a c"
  by (simp add: same_keys_def)

lemma heapify_loop_correct:
  assumes swo: "strict_weak_order lt"
  shows "well_formed h \<Longrightarrow> i < length (m_keys h) \<Longrightarrow> ordered_from lt (m_keys h) (Suc i) \<Longrightarrow>
     \<exists>h'. heapify_loop lt i h = Some h' \<and> well_formed h' \<and> ordered_from lt (m_keys h') 1 \<and> same_keys h h'"
proof (induction i arbitrary: h)
  case 0
  then show ?case by (simp add: same_keys_def)
next
  case (Suc i)
  have ok: "down_ok lt (m_keys h) (Suc i) (Suc i)"
    unfolding down_ok_def
  proof (intro conjI allI impI)
    fix c assume "2 \<le> c \<and> c < length (m_keys h) \<and> Suc i \<le> parent c \<and> parent c \<noteq> Suc i"
    then show "\<not> lt (m_keys h ! c) (m_keys h ! parent c)"
      using Suc.prems(3) unfolding ordered_from_def by auto
  next
    fix c assume "Suc i \<le> parent (Suc i)"
    then have False by (simp add: parent_def)
    then show "\<not> lt (m_keys h ! c) (m_keys h ! parent (Suc i))" ..
  qed
  from move_down_correct[OF swo Suc.prems(1) _ Suc.prems(2) _ ok]
  obtain h1 where h1: "move_down lt (Suc i) h = Some h1" "sift_post lt (Suc i) h h1" by auto
  have p: "well_formed h1" "i < length (m_keys h1)" "ordered_from lt (m_keys h1) (Suc i)"
    using h1(2) Suc.prems(2) by (simp_all add: sift_post_def)
  from Suc.IH[OF p] obtain h' where h': "heapify_loop lt i h1 = Some h'" "well_formed h'"
    "ordered_from lt (m_keys h') 1" "same_keys h1 h'" by blast
  show ?case using h1(1) h' same_keys_trans[OF sift_post_same[OF h1(2)] h'(4)] by simp
qed

lemma heapify_correct:
  assumes swo: "strict_weak_order lt" and wf: "well_formed h"
  shows "\<exists>h'. heapify lt h = Some h' \<and> heap_inv lt h' \<and> same_keys h h'"
proof -
  let ?n = "length (m_keys h)"
  have ne: "0 < ?n" using wf by (simp add: well_formed_def)
  have i: "(?n - 1) div 2 < ?n" using ne by (cases "m_keys h") (simp_all add: less_Suc_eq_le)
  have "ordered_from lt (m_keys h) (Suc ((?n - 1) div 2))"
    unfolding ordered_from_def parent_def by (intro allI impI) presburger
  from heapify_loop_correct[OF swo wf i this]
  show ?thesis by (auto simp: heapify_def heap_inv_def heap_order_iff)
qed

lemma heap_init_inv: "heap_inv lt (heap_init s)"
  by (auto simp: heap_inv_def well_formed_def index_ok_def index_sound_def heap_order_def
      heap_init_def set_bounds_def resize_def)

lemma reset_inv: "heap_inv lt (reset h)" if "heap_inv lt h"
  using that
  by (auto simp: reset_def heap_inv_def well_formed_def index_ok_def index_sound_def heap_order_def)

lemma set_bounds_grow_inv:
  assumes "heap_inv lt h" "length (m_indices h) \<le> s"
  shows "heap_inv lt (set_bounds s h)"
proof -
  have wf: "well_formed h" and ord: "heap_order lt h" using assms(1) by (simp_all add: heap_inv_def)
  have ok: "index_ok h" and snd: "index_sound h" and ne: "m_keys h \<noteq> []"
    using wf by (simp_all add: well_formed_def)
  let ?g = "set_bounds s h"
  have inds: "m_indices ?g = m_indices h @ replicate (s - length (m_indices h)) 0"
    and ks: "m_keys ?g = m_keys h"
    using assms(2) by (simp_all add: set_bounds_def resize_def)
  have "index_ok ?g"
  proof (rule index_okI)
    fix i assume i: "1 \<le> i" "i < length (m_keys ?g)"
    then have il: "i < length (m_keys h)" by (simp add: ks)
    note d = index_okD[OF ok i(1) il]
    then have "nat (m_keys h ! i) < length (m_indices h)" by simp
    then show "0 \<le> m_keys ?g ! i \<and> m_keys ?g ! i < int (length (m_indices ?g)) \<and>
          m_indices ?g ! nat (m_keys ?g ! i) = i"
      using d by (simp add: ks inds nth_append)
  qed
  moreover have "index_sound ?g"
  proof (rule index_soundI)
    fix k assume k: "k < length (m_indices ?g)" "m_indices ?g ! k \<noteq> 0"
    then have k': "k < length (m_indices h)" by (auto simp: inds nth_append split: if_splits)
    then have e: "m_indices ?g ! k = m_indices h ! k" by (simp add: inds nth_append)
    from index_soundD[OF snd k'] k(2) e
    show "m_indices ?g ! k < length (m_keys ?g) \<and> m_keys ?g ! (m_indices ?g ! k) = int k"
      by (simp add: ks)
  qed
  moreover have "heap_order lt ?g" using ord by (simp add: heap_order_def ks)
  ultimately show ?thesis using ne by (simp add: heap_inv_def well_formed_def ks)
qed

lemma reserve_inv: "heap_inv lt h \<Longrightarrow> heap_inv lt (reserve s h)"
  by (simp add: reserve_def set_bounds_grow_inv)

section \<open>The keys present\<close>

lemma in_set_tl_iff: "x \<in> set (tl xs) \<longleftrightarrow> (\<exists>i. 1 \<le> i \<and> i < length xs \<and> xs ! i = x)"
proof
  assume "x \<in> set (tl xs)"
  then obtain j where j: "j < length (tl xs)" "tl xs ! j = x" by (auto simp: in_set_conv_nth)
  then have "1 \<le> Suc j \<and> Suc j < length xs \<and> xs ! Suc j = x" by (simp add: nth_tl)
  then show "\<exists>i. 1 \<le> i \<and> i < length xs \<and> xs ! i = x" by blast
next
  assume "\<exists>i. 1 \<le> i \<and> i < length xs \<and> xs ! i = x"
  then obtain i where i: "1 \<le> i" "i < length xs" "xs ! i = x" by blast
  then have "i - 1 < length (tl xs)" "tl xs ! (i - 1) = x" by (simp_all add: nth_tl)
  then show "x \<in> set (tl xs)" by (auto simp: in_set_conv_nth)
qed

lemma present_nth: "present h = {m_keys h ! i | i. 1 \<le> i \<and> i < length (m_keys h)}"
  unfolding present_def by (auto simp: in_set_tl_iff)

lemma contains_present:
  assumes wf: "well_formed h" and k: "0 \<le> k"
  shows "contains h k = Some (k \<in> present h)"
proof -
  have ok: "index_ok h" and snd: "index_sound h" using wf by (simp_all add: well_formed_def)
  show ?thesis
  proof (cases "k < int (length (m_indices h))")
    case False
    have "k \<notin> present h"
    proof
      assume "k \<in> present h"
      then obtain i where i: "1 \<le> i" "i < length (m_keys h)" "k = m_keys h ! i"
        by (auto simp: present_nth)
      from index_okD(2)[OF ok i(1,2)] i(3) False show False by simp
    qed
    then show ?thesis using False by (simp add: contains_def)
  next
    case True
    then have kl: "nat k < length (m_indices h)" using k by simp
    have "m_indices h ! nat k \<noteq> 0 \<longleftrightarrow> k \<in> present h"
    proof
      assume nz: "m_indices h ! nat k \<noteq> 0"
      from index_soundD[OF snd kl nz] nz k show "k \<in> present h"
        by (auto simp: present_nth intro!: exI[of _ "m_indices h ! nat k"])
    next
      assume "k \<in> present h"
      then obtain i where i: "1 \<le> i" "i < length (m_keys h)" "k = m_keys h ! i"
        by (auto simp: present_nth)
      from index_okD(3)[OF ok i(1,2)] i(1,3) show "m_indices h ! nat k \<noteq> 0" by simp
    qed
    then show ?thesis using True k by (simp add: contains_def)
  qed
qed

lemma mset_tl:
  assumes "xs \<noteq> []" "ys \<noteq> []" "xs ! 0 = ys ! 0"
  shows "mset (tl xs) = mset xs - {#ys ! 0#}"
  using assms by (cases xs) simp_all

lemma present_add:
  assumes "m_keys h \<noteq> []" "mset (m_keys h') = mset (m_keys h) + {#key#}" "m_keys h' ! 0 = m_keys h ! 0"
  shows "present h' = present h \<union> {key}"
proof -
  obtain x t where h: "m_keys h = x # t" using assms(1) by (cases "m_keys h") auto
  have "m_keys h' \<noteq> []" using assms(2) by auto
  then obtain x' t' where h': "m_keys h' = x' # t'" by (cases "m_keys h'") auto
  have "x' = x" using assms(3) h h' by simp
  then have "mset t' = mset t + {#key#}" using assms(2) h h' by simp
  then have "set_mset (mset t') = set_mset (mset t + {#key#})" by simp
  then show ?thesis by (simp add: present_def h h')
qed

lemma present_same:
  assumes "m_keys h \<noteq> []" "same_keys h h'"
  shows "present h' = present h"
proof -
  obtain x t where h: "m_keys h = x # t" using assms(1) by (cases "m_keys h") auto
  have "m_keys h' \<noteq> []" using assms by (auto simp: same_keys_def)
  then obtain x' t' where h': "m_keys h' = x' # t'" by (cases "m_keys h'") auto
  have "x' = x" using assms(2) h h' by (simp add: same_keys_def)
  then have "mset t' = mset t" using assms(2) h h' by (simp add: same_keys_def)
  then have "set_mset (mset t') = set_mset (mset t)" by simp
  then show ?thesis by (simp add: present_def h h')
qed

lemma present_removed:
  assumes wf: "well_formed h" and r: "removed lt h key h'" and k: "key \<in> present h"
  shows "present h' = present h - {key}"
proof -
  have ne: "m_keys h \<noteq> []" using wf by (simp add: well_formed_def)
  obtain x t where h: "m_keys h = x # t" using ne by (cases "m_keys h") auto
  have wf': "well_formed h'" using r by (simp add: removed_def heap_inv_def)
  then have "m_keys h' \<noteq> []" by (simp add: well_formed_def)
  then obtain x' t' where h': "m_keys h' = x' # t'" by (cases "m_keys h'") auto
  have xx: "x' = x" using r h h' by (simp add: removed_def)
  have kt: "key \<in> set t" using k by (simp add: present_def h)
  have m: "add_mset x (mset t') = add_mset x (mset t) - {#key#}"
    using r h h' xx by (simp add: removed_def)
  have "add_mset x (mset t) - {#key#} = add_mset x (mset t - {#key#})"
    using kt by (simp add: in_multiset_in_set)
  with m have t': "mset t' = mset t - {#key#}" by simp
  have dt: "distinct t"
  proof -
    have "\<And>i j. i < length t \<Longrightarrow> j < length t \<Longrightarrow> i \<noteq> j \<Longrightarrow> t ! i \<noteq> t ! j"
      using well_formed_distinct[OF wf, of "Suc _" "Suc _"] by (simp add: h)
    then show ?thesis by (simp add: distinct_conv_nth)
  qed
  have "mset t' = mset (remove1 key t)" using t' by simp
  then have "set t' = set (remove1 key t)" by (rule mset_eq_setD)
  also have "\<dots> = set t - {key}" by (rule set_remove1_eq[OF dt])
  finally show ?thesis by (simp add: present_def h h')
qed

lemma swo_int_lt: "strict_weak_order int_lt"
  by (auto simp: strict_weak_order_def int_lt_def)

lemma swo_int_gt: "strict_weak_order int_gt"
  by (auto simp: strict_weak_order_def int_gt_def)

lemma heap_inv_swap:
  "heap_inv lt other \<Longrightarrow> heap_inv lt (fst (swap h other))"
  by (simp add: swap_def heap_inv_def well_formed_def index_ok_def index_sound_def heap_order_def)

lemma present_swap: "present (fst (swap h other)) = present other"
  by (simp add: swap_def present_def)

lemma present_init: "present (heap_init s) = {}"
  by (simp add: present_def heap_init_def set_bounds_def)

lemma present_reset: "well_formed h \<Longrightarrow> present (reset h) = {}"
  by (cases "m_keys h") (auto simp: present_def reset_def heap_empty_def well_formed_def)

lemma present_reserve: "present (reserve s h) = present h"
  by (simp add: present_def reserve_def set_bounds_def)

lemma root_present:
  assumes "well_formed h" "\<not> heap_empty h"
  shows "m_keys h ! 1 \<in> present h"
proof -
  have "1 < length (m_keys h)"
    using assms by (cases "m_keys h") (auto simp: well_formed_def heap_empty_def)
  then show ?thesis by (auto simp: present_nth)
qed

lemma reachable_sound:
  assumes "reachable lt h S"
  shows "strict_weak_order lt \<and> heap_inv lt h \<and> present h = S"
  using assms
proof (induction rule: reachable.induct)
  case (construct lt s)
  then show ?case by (simp add: heap_init_inv present_init)
next
  case (insert lt h S key h')
  then have swo: "strict_weak_order lt" and inv: "heap_inv lt h" and p: "present h = S" by simp_all
  have ne: "m_keys h \<noteq> []" using inv by (simp add: heap_inv_def well_formed_def)
  from heap_insert_correct[OF swo inv insert.hyps(2,3)] insert.hyps(4)
  have "heap_inv lt h'" "mset (m_keys h') = mset (m_keys h) + {#key#}" "m_keys h' ! 0 = m_keys h ! 0"
    by auto
  then show ?case using swo p present_add[OF ne, of h' key] by simp
next
  case (erase_min lt h S r h')
  then have swo: "strict_weak_order lt" and inv: "heap_inv lt h" and p: "present h = S" by simp_all
  have wf: "well_formed h" using inv by (simp add: heap_inv_def)
  from erase_min_correct[OF swo inv erase_min.hyps(2)] erase_min.hyps(3)
  have r: "r = m_keys h ! 1" "removed lt h r h'" by auto
  have "r \<in> present h" unfolding r(1) by (rule root_present[OF wf erase_min.hyps(2)])
  from present_removed[OF wf r(2) this] r(2) swo p show ?case by (simp add: removed_def)
next
  case (erase lt h S key h')
  then have swo: "strict_weak_order lt" and inv: "heap_inv lt h" and p: "present h = S" by simp_all
  have wf: "well_formed h" using inv by (simp add: heap_inv_def)
  from erase_correct[OF swo inv erase.hyps(2)] erase.hyps(3)
  have r: "removed lt h key h'" by auto
  have "0 \<le> key" using erase.hyps(2) by (simp add: contains_True_iff)
  from contains_present[OF wf this] erase.hyps(2) have "key \<in> present h" by simp
  from present_removed[OF wf r this] r swo p show ?case by (simp add: removed_def)
next
  case (decreased lt h S key lt' h')
  then have swo: "strict_weak_order lt" and inv: "heap_inv lt h" and p: "present h = S" by simp_all
  have ne: "m_keys h \<noteq> []" using inv by (simp add: heap_inv_def well_formed_def)
  from decreased_correct[OF swo decreased.hyps(3) inv decreased.hyps(2,4)] decreased.hyps(5)
  have "heap_inv lt' h'" "same_keys h h'" by auto
  then show ?case using decreased.hyps(3) p present_same[OF ne] by simp
next
  case (increased lt h S key lt' h')
  then have swo: "strict_weak_order lt" and inv: "heap_inv lt h" and p: "present h = S" by simp_all
  have ne: "m_keys h \<noteq> []" using inv by (simp add: heap_inv_def well_formed_def)
  from increased_correct[OF swo increased.hyps(3) inv increased.hyps(2,4)] increased.hyps(5)
  have "heap_inv lt' h'" "same_keys h h'" by auto
  then show ?case using increased.hyps(3) p present_same[OF ne] by simp
next
  case (heapify lt h S lt' h')
  then have wf: "well_formed h" and p: "present h = S" by (simp_all add: heap_inv_def)
  have ne: "m_keys h \<noteq> []" using wf by (simp add: well_formed_def)
  from heapify_correct[OF heapify.hyps(2) wf] heapify.hyps(3)
  have "heap_inv lt' h'" "same_keys h h'" by auto
  then show ?case using heapify.hyps(2) p present_same[OF ne] by simp
next
  case (reserve lt h S s)
  then show ?case by (simp add: reserve_inv present_reserve)
next
  case (reset lt h S)
  then have "heap_inv lt h" by simp
  from reset_inv[OF this] this reset.IH show ?case
    by (simp add: present_reset heap_inv_def)
next
  case (swap lt h S other S')
  then show ?case by (simp add: heap_inv_swap present_swap)
qed

lemma reachable_op_returns:
  assumes "reachable lt h S"
  shows "is_valid_value h key \<Longrightarrow> contains h key = Some False \<Longrightarrow> \<exists>h'. heap_insert lt key h = Some h'"
    and "\<not> heap_empty h \<Longrightarrow> \<exists>r h'. erase_min lt h = Some (r, h')"
    and "contains h key = Some True \<Longrightarrow> \<exists>h'. erase lt key h = Some h'"
    and "contains h key = Some True \<Longrightarrow> strict_weak_order lt' \<Longrightarrow> priority_decreased lt lt' key \<Longrightarrow>
           \<exists>h'. decreased lt' key h = Some h'"
    and "contains h key = Some True \<Longrightarrow> strict_weak_order lt' \<Longrightarrow> priority_increased lt lt' key \<Longrightarrow>
           \<exists>h'. increased lt' key h = Some h'"
    and "strict_weak_order lt' \<Longrightarrow> \<exists>h'. heapify lt' h = Some h'"
proof -
  from reachable_sound[OF assms] have swo: "strict_weak_order lt" and inv: "heap_inv lt h" by simp_all
  have wf: "well_formed h" using inv by (simp add: heap_inv_def)
  show "is_valid_value h key \<Longrightarrow> contains h key = Some False \<Longrightarrow> \<exists>h'. heap_insert lt key h = Some h'"
    using heap_insert_correct[OF swo inv] by blast
  show "\<not> heap_empty h \<Longrightarrow> \<exists>r h'. erase_min lt h = Some (r, h')"
    using erase_min_correct[OF swo inv] by blast
  show "contains h key = Some True \<Longrightarrow> \<exists>h'. erase lt key h = Some h'"
    using erase_correct[OF swo inv] by blast
  show "contains h key = Some True \<Longrightarrow> strict_weak_order lt' \<Longrightarrow> priority_decreased lt lt' key \<Longrightarrow>
           \<exists>h'. decreased lt' key h = Some h'"
    using decreased_correct[OF swo _ inv] by blast
  show "contains h key = Some True \<Longrightarrow> strict_weak_order lt' \<Longrightarrow> priority_increased lt lt' key \<Longrightarrow>
           \<exists>h'. increased lt' key h = Some h'"
    using increased_correct[OF swo _ inv] by blast
  show "strict_weak_order lt' \<Longrightarrow> \<exists>h'. heapify lt' h = Some h'"
    using heapify_correct[OF _ wf] by blast
qed

section \<open>Invariant preservation\<close>

text \<open>
  Claim C1, amended. \<open>reachable lt h S\<close> says that the heap \<open>h\<close>, used with the
  comparator \<open>lt\<close>, is the result of a sequence of operations, each under its
  precondition: construction, \<open>insert\<close> of a valid absent key, \<open>erase_min\<close> on a
  non-empty heap, \<open>erase\<close>, \<open>decreased\<close>, \<open>increased\<close> of a present key (the
  last two after the comparator changed for that key alone, in the stated direction),
  \<open>heapify\<close> after any change of the comparator, \<open>reserve\<close>, \<open>reset\<close>, and
  \<open>swap\<close> with a heap reached under the same comparator.
  For every such heap, every occupied slot \<open>i\<close> has
  \<open>index[position[i]] = i\<close>, and for every occupied slot \<open>i > 1\<close> the comparator does
  not place \<open>position[i]\<close> before \<open>position[parent(i)]\<close>.
  (By \<open>reachable_op_returns\<close> each of these operations does return in such a heap,
  and by \<open>reachable_check_invariant\<close> the source's own \<open>check_invariant\<close> passes.)
\<close>

theorem reachable_invariant:
  assumes "reachable lt h S"
  shows "(\<forall>i. 1 \<le> i \<and> i < length (m_keys h) \<longrightarrow> get_index h (m_keys h ! i) = Some i) \<and>
         (\<forall>i. 1 < i \<and> i < length (m_keys h) \<longrightarrow> \<not> lt (m_keys h ! i) (m_keys h ! parent i))"
proof -
  from reachable_sound[OF assms] have ok: "index_ok h" and ord: "heap_order lt h"
    by (simp_all add: heap_inv_def well_formed_def)
  have "get_index h (m_keys h ! i) = Some i" if "1 \<le> i" "i < length (m_keys h)" for i
    using index_okD[OF ok that] by (simp add: get_index_def)
  moreover have "\<not> lt (m_keys h ! i) (m_keys h ! parent i)" if "1 < i" "i < length (m_keys h)" for i
    using heap_orderD[OF ord _ that(2)] that(1) by simp
  ultimately show ?thesis by blast
qed

lemma reachable_example:
  "reachable int_lt \<lparr>m_keys = [-1, 1, 4, 3], m_indices = [0, 1, 0, 3, 2]\<rparr> {4, 1, 3}"
proof -
  have 0: "reachable int_lt (heap_init 5) {}" by (rule reachable.construct[OF swo_int_lt])
  have 1: "reachable int_lt \<lparr>m_keys = [-1, 4], m_indices = [0, 0, 0, 0, 1]\<rparr> ({} \<union> {4})"
    by (rule reachable.insert[OF 0]) code_simp+
  have 2: "reachable int_lt \<lparr>m_keys = [-1, 1, 4], m_indices = [0, 1, 0, 0, 2]\<rparr> ({} \<union> {4} \<union> {1})"
    by (rule reachable.insert[OF 1]) code_simp+
  have 3: "reachable int_lt \<lparr>m_keys = [-1, 1, 4, 3], m_indices = [0, 1, 0, 3, 2]\<rparr> ({} \<union> {4} \<union> {1} \<union> {3})"
    by (rule reachable.insert[OF 2]) code_simp+
  have "{} \<union> {4} \<union> {1} \<union> {3} = {4, 1, 3::int}" by auto
  with 3 show ?thesis by simp
qed

theorem reachable_invariant_witness:
  "reachable int_lt \<lparr>m_keys = [-1, 1, 4, 3], m_indices = [0, 1, 0, 3, 2]\<rparr> {4, 1, 3} \<and>
   get_index \<lparr>m_keys = [-1, 1, 4, 3], m_indices = [0, 1, 0, 3, 2]\<rparr> 4 = Some 2 \<and>
   \<not> int_lt 3 1"
proof -
  let ?h = "\<lparr>m_keys = [-1, 1, 4, 3], m_indices = [0, 1, 0, 3, 2]\<rparr>"
  from reachable_invariant[OF reachable_example]
  have a: "\<forall>i. 1 \<le> i \<and> i < length (m_keys ?h) \<longrightarrow> get_index ?h (m_keys ?h ! i) = Some i"
    and b: "\<forall>i. 1 < i \<and> i < length (m_keys ?h) \<longrightarrow> \<not> int_lt (m_keys ?h ! i) (m_keys ?h ! parent i)"
    by blast+
  from a[rule_format, of 2] have "get_index ?h 4 = Some 2" by simp
  moreover from b[rule_format, of 3] have "\<not> int_lt 3 1" by (simp add: parent_def)
  ultimately show ?thesis using reachable_example by simp
qed

text \<open>
  Claim C1 as stated puts no condition on \<open>swap\<close>. \<open>swap\<close> exchanges the two
  vectors and leaves each heap its own comparator object, so between two heaps of the
  same class whose comparator objects order the keys differently it breaks the heap
  order: the heap holding 0 and 1 under the ascending order receives the vectors of a
  heap built under the descending order, and its slot 2 then sorts before its root.
\<close>

theorem swap_foreign_comparator_breaks_order:
  "strict_weak_order int_lt \<and> strict_weak_order int_gt \<and>
   heap_insert int_lt 0 (heap_init 2) = Some \<lparr>m_keys = [-1, 0], m_indices = [1, 0]\<rparr> \<and>
   heap_insert int_lt 1 \<lparr>m_keys = [-1, 0], m_indices = [1, 0]\<rparr>
     = Some \<lparr>m_keys = [-1, 0, 1], m_indices = [1, 2]\<rparr> \<and>
   heap_insert int_gt 0 (heap_init 2) = Some \<lparr>m_keys = [-1, 0], m_indices = [1, 0]\<rparr> \<and>
   heap_insert int_gt 1 \<lparr>m_keys = [-1, 0], m_indices = [1, 0]\<rparr>
     = Some \<lparr>m_keys = [-1, 1, 0], m_indices = [2, 1]\<rparr> \<and>
   fst (swap \<lparr>m_keys = [-1, 0, 1], m_indices = [1, 2]\<rparr> \<lparr>m_keys = [-1, 1, 0], m_indices = [2, 1]\<rparr>)
     = \<lparr>m_keys = [-1, 1, 0], m_indices = [2, 1]\<rparr> \<and>
   int_lt (m_keys \<lparr>m_keys = [-1, 1, 0], m_indices = [2, 1]\<rparr> ! 2)
          (m_keys \<lparr>m_keys = [-1, 1, 0], m_indices = [2, 1]\<rparr> ! parent 2) \<and>
   heap_inv int_lt \<lparr>m_keys = [-1, 0, 1], m_indices = [1, 2]\<rparr> \<and>
   heap_inv int_gt \<lparr>m_keys = [-1, 1, 0], m_indices = [2, 1]\<rparr> \<and>
   \<not> heap_order int_lt \<lparr>m_keys = [-1, 1, 0], m_indices = [2, 1]\<rparr>"
proof -
  have "heap_inv int_lt \<lparr>m_keys = [-1, 0, 1], m_indices = [1, 2]\<rparr>" by code_simp
  moreover have "heap_inv int_gt \<lparr>m_keys = [-1, 1, 0], m_indices = [2, 1]\<rparr>" by code_simp
  moreover have "\<not> heap_order int_lt \<lparr>m_keys = [-1, 1, 0], m_indices = [2, 1]\<rparr>" by code_simp
  moreover
  have "heap_insert int_lt 0 (heap_init 2) = Some \<lparr>m_keys = [-1, 0], m_indices = [1, 0]\<rparr>" by code_simp
  moreover have "heap_insert int_lt 1 \<lparr>m_keys = [-1, 0], m_indices = [1, 0]\<rparr>
     = Some \<lparr>m_keys = [-1, 0, 1], m_indices = [1, 2]\<rparr>" by code_simp
  moreover have "heap_insert int_gt 0 (heap_init 2) = Some \<lparr>m_keys = [-1, 0], m_indices = [1, 0]\<rparr>" by code_simp
  moreover have "heap_insert int_gt 1 \<lparr>m_keys = [-1, 0], m_indices = [1, 0]\<rparr>
     = Some \<lparr>m_keys = [-1, 1, 0], m_indices = [2, 1]\<rparr>" by code_simp
  moreover have "fst (swap \<lparr>m_keys = [-1, 0, 1], m_indices = [1, 2]\<rparr> \<lparr>m_keys = [-1, 1, 0], m_indices = [2, 1]\<rparr>)
     = \<lparr>m_keys = [-1, 1, 0], m_indices = [2, 1]\<rparr>" by (simp add: swap_def)
  moreover have "int_lt (m_keys \<lparr>m_keys = [-1, 1, 0], m_indices = [2, 1]\<rparr> ! 2)
          (m_keys \<lparr>m_keys = [-1, 1, 0], m_indices = [2, 1]\<rparr> ! parent 2)"
    by (simp add: int_lt_def parent_def)
  ultimately show ?thesis using swo_int_lt swo_int_gt by blast
qed

section \<open>Membership\<close>

text \<open>
  Claim C8. In \<open>reachable lt h S\<close> the set \<open>S\<close> records the history: construction
  and \<open>reset\<close> make it empty, \<open>insert(k)\<close> adds \<open>k\<close>, \<open>erase(k)\<close> removes
  \<open>k\<close>, \<open>erase_min\<close> removes the key it returns, and \<open>swap\<close> hands over the set
  together with the vectors. For every key \<open>k \<ge> 0\<close>, \<open>contains(k)\<close> returns true
  if and only if \<open>k\<close> is within the capacity and in \<open>S\<close>; and \<open>contains(k)\<close> is
  true if and only if \<open>k\<close> is within the capacity and its index entry is not 0.
\<close>

theorem contains_iff_inserted:
  assumes "reachable lt h S" "0 \<le> k"
  shows "contains h k = Some (k < int (heap_size h) \<and> k \<in> S) \<and>
         (contains h k = Some True \<longleftrightarrow> k < int (heap_size h) \<and> get_index h k \<noteq> Some 0)"
proof -
  from reachable_sound[OF assms(1)] have wf: "well_formed h" and p: "present h = S"
    by (simp_all add: heap_inv_def)
  have ok: "index_ok h" using wf by (simp add: well_formed_def)
  have "k < int (heap_size h)" if "k \<in> S"
  proof -
    from that p obtain i where i: "1 \<le> i" "i < length (m_keys h)" "k = m_keys h ! i"
      by (auto simp: present_nth)
    from index_okD(2)[OF ok i(1,2)] i(3) show ?thesis by (simp add: heap_size_def)
  qed
  then have "contains h k = Some (k < int (heap_size h) \<and> k \<in> S)"
    using contains_present[OF wf assms(2)] p by auto
  moreover have "contains h k = Some True \<longleftrightarrow> k < int (heap_size h) \<and> get_index h k \<noteq> Some 0"
    using assms(2) by (auto simp: contains_def heap_size_def get_index_def)
  ultimately show ?thesis by blast
qed

theorem contains_iff_inserted_witness:
  "reachable int_lt \<lparr>m_keys = [-1, 1, 4, 3], m_indices = [0, 1, 0, 3, 2]\<rparr> {4, 1, 3} \<and>
   contains \<lparr>m_keys = [-1, 1, 4, 3], m_indices = [0, 1, 0, 3, 2]\<rparr> 3 = Some True \<and>
   contains \<lparr>m_keys = [-1, 1, 4, 3], m_indices = [0, 1, 0, 3, 2]\<rparr> 2 = Some False"
proof -
  let ?h = "\<lparr>m_keys = [-1, 1, 4, 3], m_indices = [0, 1, 0, 3, 2]\<rparr>"
  have "contains ?h 3 = Some True"
    using contains_iff_inserted[OF reachable_example, of 3] by (simp add: heap_size_def)
  moreover have "contains ?h 2 = Some False"
    using contains_iff_inserted[OF reachable_example, of 2] by (simp add: heap_size_def)
  ultimately show ?thesis using reachable_example by simp
qed

section \<open>Extraction order\<close>

lemma root_least:
  assumes swo: "strict_weak_order lt" and ord: "heap_order lt h"
  shows "1 \<le> i \<Longrightarrow> i < length (m_keys h) \<Longrightarrow> \<not> lt (m_keys h ! i) (m_keys h ! 1)"
proof (induction i rule: less_induct)
  case (less i)
  show ?case
  proof (cases "i = 1")
    case True
    then show ?thesis using swo_irrefl[OF swo] by simp
  next
    case False
    then have i2: "2 \<le> i" using less.prems(1) by simp
    then have p: "parent i < i" "1 \<le> parent i" "parent i < length (m_keys h)"
      using less.prems(2) by (auto simp: parent_def)
    have "\<not> lt (m_keys h ! i) (m_keys h ! parent i)" by (rule heap_orderD[OF ord i2 less.prems(2)])
    moreover have "\<not> lt (m_keys h ! parent i) (m_keys h ! 1)" by (rule less.IH[OF p])
    ultimately show ?thesis by (rule swo_ntrans[OF swo])
  qed
qed

lemma mset_tl_removed:
  assumes wf: "well_formed h" and r: "removed lt h key h'" and k: "key \<in> present h"
  shows "mset (tl (m_keys h')) = mset (tl (m_keys h)) - {#key#}"
proof -
  have ne: "m_keys h \<noteq> []" using wf by (simp add: well_formed_def)
  obtain x t where h: "m_keys h = x # t" using ne by (cases "m_keys h") auto
  have wf': "well_formed h'" using r by (simp add: removed_def heap_inv_def)
  then have "m_keys h' \<noteq> []" by (simp add: well_formed_def)
  then obtain x' t' where h': "m_keys h' = x' # t'" by (cases "m_keys h'") auto
  have xx: "x' = x" using r h h' by (simp add: removed_def)
  have kt: "key \<in> set t" using k by (simp add: present_def h)
  have m: "add_mset x (mset t') = add_mset x (mset t) - {#key#}"
    using r h h' xx by (simp add: removed_def)
  have "add_mset x (mset t) - {#key#} = add_mset x (mset t - {#key#})"
    using kt by (simp add: in_multiset_in_set)
  with m have "mset t' = mset t - {#key#}" by simp
  then show ?thesis by (simp add: h h')
qed

lemma drain_loop_correct:
  assumes swo: "strict_weak_order lt"
  shows "heap_inv lt h \<Longrightarrow> ascending lt out \<Longrightarrow> (\<forall>x\<in>set out. \<forall>y\<in>present h. \<not> lt y x) \<Longrightarrow>
     \<exists>res h'. drain_loop lt h out = Some (res, h') \<and> heap_empty h' \<and> heap_inv lt h' \<and>
        mset res = mset out + mset (tl (m_keys h)) \<and> ascending lt res"
proof (induction "length (m_keys h)" arbitrary: h out rule: less_induct)
  case less
  note inv = less.prems(1) and asc = less.prems(2) and le = less.prems(3)
  have wf: "well_formed h" and ord: "heap_order lt h" using inv by (simp_all add: heap_inv_def)
  show ?case
  proof (cases "heap_empty h")
    case True
    then have "tl (m_keys h) = []" by (cases "m_keys h") (simp_all add: heap_empty_def)
    then show ?thesis using True inv asc by (subst drain_loop.simps) simp
  next
    case False
    let ?r = "m_keys h ! 1"
    from erase_min_correct[OF swo inv False]
    obtain h1 where h1: "erase_min lt h = Some (?r, h1)" "removed lt h ?r h1" by blast
    have rp: "?r \<in> present h" by (rule root_present[OF wf False])
    have least: "\<forall>y\<in>present h. \<not> lt y ?r"
      using root_least[OF swo ord] by (auto simp: present_nth)
    have inv1: "heap_inv lt h1" and len: "length (m_keys h1) < length (m_keys h)"
      using h1(2) by (auto simp: removed_def)
    have sub: "present h1 \<subseteq> present h" using present_removed[OF wf h1(2) rp] by blast
    have asc1: "ascending lt (out @ [?r])"
      using asc le rp by (simp add: ascending_def sorted_wrt_append)
    have le1: "\<forall>x\<in>set (out @ [?r]). \<forall>y\<in>present h1. \<not> lt y x"
      using le least sub by auto
    from less.hyps[OF len inv1 asc1 le1]
    obtain res h' where r: "drain_loop lt h1 (out @ [?r]) = Some (res, h')" "heap_empty h'"
      "heap_inv lt h'" "mset res = mset (out @ [?r]) + mset (tl (m_keys h1))" "ascending lt res"
      by blast
    have "?r \<in># mset (tl (m_keys h))" using rp by (simp add: present_def)
    then have "mset res = mset out + mset (tl (m_keys h))"
      using r(4) mset_tl_removed[OF wf h1(2) rp] by simp
    moreover have "drain_loop lt h out = Some (res, h')"
      using False h1(1) r(1) by (subst drain_loop.simps) simp
    ultimately show ?thesis using r by blast
  qed
qed

lemma ascending_order:
  assumes swo: "strict_weak_order lt" and asc: "ascending lt xs"
    and ij: "i < length xs" "j < length xs" "lt (xs ! i) (xs ! j)"
  shows "i < j"
proof (rule ccontr)
  assume "\<not> i < j"
  then consider "i = j" | "j < i" by linarith
  then show False
  proof cases
    case 1
    then show ?thesis using ij(3) swo_irrefl[OF swo] by simp
  next
    case 2
    from asc have "\<not> lt (xs ! i) (xs ! j)"
      unfolding ascending_def using sorted_wrt_nth_less[OF _ 2 ij(1)] by blast
    then show ?thesis using ij(3) by simp
  qed
qed

text \<open>
  Claim C2. For every heap that satisfies the heap invariant under a comparator that is a
  strict weak order (the strict part of a total preorder), calling \<open>erase_min\<close> until
  the heap is empty terminates and returns exactly the keys of the heap, each once, in
  a sequence that is ascending for the comparator: no key is placed before an earlier
  one, so two keys of distinct priority come out in comparator order (nothing is said
  about the order of ties).
\<close>

theorem erase_min_until_empty_sorted:
  assumes "strict_weak_order lt" "heap_inv lt h"
  shows "\<exists>out h'. drain lt h = Some (out, h') \<and> heap_empty h' \<and>
           mset out = mset (tl (m_keys h)) \<and> set out = present h \<and>
           sorted_wrt (\<lambda>a b. \<not> lt b a) out \<and>
           (\<forall>i j. i < length out \<and> j < length out \<and> lt (out ! i) (out ! j) \<longrightarrow> i < j)"
proof -
  have "ascending lt []" by (simp add: ascending_def)
  from drain_loop_correct[OF assms(1,2) this]
  obtain out h' where r: "drain_loop lt h [] = Some (out, h')" "heap_empty h'"
    "mset out = mset (tl (m_keys h))" "ascending lt out" by auto
  have "set out = present h" using mset_eq_setD[OF r(3)] by (simp add: present_def)
  moreover have "\<forall>i j. i < length out \<and> j < length out \<and> lt (out ! i) (out ! j) \<longrightarrow> i < j"
    using ascending_order[OF assms(1) r(4)] by blast
  ultimately show ?thesis using r by (auto simp: drain_def ascending_def)
qed

lemma heap_inv_example:
  "heap_inv int_lt \<lparr>m_keys = [-1, 1, 4, 3], m_indices = [0, 1, 0, 3, 2]\<rparr>"
  using reachable_sound[OF reachable_example] by simp

theorem erase_min_until_empty_sorted_witness:
  "strict_weak_order int_lt \<and> heap_inv int_lt \<lparr>m_keys = [-1, 1, 4, 3], m_indices = [0, 1, 0, 3, 2]\<rparr> \<and>
   drain int_lt \<lparr>m_keys = [-1, 1, 4, 3], m_indices = [0, 1, 0, 3, 2]\<rparr>
     = Some ([1, 3, 4], \<lparr>m_keys = [-1], m_indices = [0, 0, 0, 0, 0]\<rparr>)"
proof -
  have "drain int_lt \<lparr>m_keys = [-1, 1, 4, 3], m_indices = [0, 1, 0, 3, 2]\<rparr>
     = Some ([1, 3, 4], \<lparr>m_keys = [-1], m_indices = [0, 0, 0, 0, 0]\<rparr>)"
    by code_simp
  then show ?thesis
    using erase_min_until_empty_sorted[OF swo_int_lt heap_inv_example] swo_int_lt heap_inv_example
    by simp
qed

section \<open>The range query\<close>

lemma div_pow_Suc: "(j::nat) div 2 ^ Suc d = j div 2 ^ d div 2"
proof -
  have "j div 2 ^ Suc d = j div (2 ^ d * 2)" by (simp add: mult.commute)
  also have "\<dots> = j div 2 ^ d div 2" by (rule div_mult2_eq)
  finally show ?thesis .
qed

lemma div2_cases: "(c::nat) div 2 = i \<Longrightarrow> c = 2 * i \<or> c = 2 * i + 1"
  by presburger

lemma div_pow_Suc': "(j::nat) div 2 ^ Suc d = j div 2 div 2 ^ d"
  by (simp add: div_mult2_eq)

lemma below_refl: "below i i"
  unfolding below_def by (rule exI[of _ 0]) simp

lemma below_child: "below (left i) j \<or> below (right i) j \<Longrightarrow> below i j"
proof -
  assume "below (left i) j \<or> below (right i) j"
  then obtain d where "j div 2 ^ d = 2 * i \<or> j div 2 ^ d = 2 * i + 1"
    unfolding below_def left_def right_def by blast
  then have "j div 2 ^ d div 2 = i" by (elim disjE) simp_all
  then have "j div 2 ^ Suc d = i" by (simp only: div_pow_Suc)
  then show ?thesis unfolding below_def by blast
qed

lemma below_cases:
  assumes "below i j" "j \<noteq> i"
  shows "below (left i) j \<or> below (right i) j"
proof -
  from assms obtain d where d: "j div 2 ^ d = i" by (auto simp: below_def)
  with assms(2) obtain e where e: "d = Suc e" by (cases d) auto
  have "j div 2 ^ e div 2 = i" using d unfolding e by (simp only: div_pow_Suc)
  then have "j div 2 ^ e = 2 * i \<or> j div 2 ^ e = 2 * i + 1" by (rule div2_cases)
  then show ?thesis unfolding below_def left_def right_def by blast
qed

lemma below_iff: "below i j \<longleftrightarrow> j = i \<or> below (left i) j \<or> below (right i) j"
  using below_refl below_child below_cases by blast

lemma below_le: "below i j \<Longrightarrow> i \<le> j"
proof -
  assume "below i j"
  then obtain d where "j div 2 ^ d = i" unfolding below_def by blast
  then show "i \<le> j" using div_le_dividend[of j "2 ^ d"] by simp
qed

lemma below_root: "1 \<le> j \<Longrightarrow> below 1 j"
proof (induction j rule: less_induct)
  case (less j)
  show ?case
  proof (cases "j = 1")
    case True
    then show ?thesis by (simp add: below_refl)
  next
    case False
    then have "j div 2 < j" "1 \<le> j div 2" using less.prems by auto
    from less.IH[OF this] obtain d where "j div 2 div 2 ^ d = 1" by (auto simp: below_def)
    then have "j div 2 ^ Suc d = 1" by (simp only: div_pow_Suc')
    then show ?thesis unfolding below_def by blast
  qed
qed

lemma below_order:
  assumes swo: "strict_weak_order lt" and ord: "heap_order lt h"
  shows "1 \<le> i \<Longrightarrow> j div 2 ^ d = i \<Longrightarrow> j < length (m_keys h) \<Longrightarrow> \<not> lt (m_keys h ! j) (m_keys h ! i)"
proof (induction d arbitrary: j)
  case 0
  then show ?case using swo_irrefl[OF swo] by simp
next
  case (Suc d)
  have p: "parent j div 2 ^ d = i" using Suc.prems(2) unfolding parent_def by (simp only: div_pow_Suc')
  have "i \<le> parent j" using p div_le_dividend[of "parent j" "2 ^ d"] by simp
  then have j2: "2 \<le> j" "parent j < length (m_keys h)" using Suc.prems(1,3) by (auto simp: parent_def)
  have "\<not> lt (m_keys h ! j) (m_keys h ! parent j)" by (rule heap_orderD[OF ord j2(1) Suc.prems(3)])
  moreover have "\<not> lt (m_keys h ! parent j) (m_keys h ! i)" by (rule Suc.IH[OF Suc.prems(1) p j2(2)])
  ultimately show ?case by (rule swo_ntrans[OF swo])
qed

lemma find_le_loop_step:
  "find_le_loop lt key h (i # todo) result =
     (if i < length (m_keys h) \<and> \<not> lt key (m_keys h ! i)
      then find_le_loop lt key h (right i # left i # todo) (result @ [m_keys h ! i])
      else find_le_loop lt key h todo result)"
  by (subst find_le_loop.simps) simp

lemma find_le_loop_skip:
  "\<not> (i < length (m_keys h) \<and> \<not> lt key (m_keys h ! i)) \<Longrightarrow>
     find_le_loop lt key h (i # todo) result = find_le_loop lt key h todo (result @ [])"
  by (subst find_le_loop_step) auto

lemma find_le_loop_visit:
  assumes "i < length (m_keys h) \<and> \<not> lt key (m_keys h ! i)"
    and yr: "\<And>todo result. find_le_loop lt key h (right i # todo) result = find_le_loop lt key h todo (result @ yr)"
    and yl: "\<And>todo result. find_le_loop lt key h (left i # todo) result = find_le_loop lt key h todo (result @ yl)"
  shows "find_le_loop lt key h (i # todo) result = find_le_loop lt key h todo (result @ ([m_keys h ! i] @ yr @ yl))"
proof -
  have "find_le_loop lt key h (i # todo) result
      = find_le_loop lt key h (right i # left i # todo) (result @ [m_keys h ! i])"
    using assms(1) by (subst find_le_loop_step) simp
  also have "\<dots> = find_le_loop lt key h (left i # todo) ((result @ [m_keys h ! i]) @ yr)" by (rule yr)
  also have "\<dots> = find_le_loop lt key h todo (((result @ [m_keys h ! i]) @ yr) @ yl)" by (rule yl)
  finally show ?thesis by simp
qed

lemma find_le_loop_Nil: "find_le_loop lt key h [] result = Some (h, result)"
  by (subst find_le_loop.simps) simp

lemma find_le_subtree_returns:
  "1 \<le> i \<Longrightarrow> \<exists>ys. \<forall>todo result.
      find_le_loop lt key h (i # todo) result = find_le_loop lt key h todo (result @ ys)"
proof (induction "length (m_keys h) - i" arbitrary: i rule: less_induct)
  case less
  show ?case
  proof (cases "i < length (m_keys h) \<and> \<not> lt key (m_keys h ! i)")
    case False
    then have "\<forall>todo result. find_le_loop lt key h (i # todo) result = find_le_loop lt key h todo (result @ [])"
      by (intro allI find_le_loop_skip)
    then show ?thesis by blast
  next
    case True
    have "length (m_keys h) - right i < length (m_keys h) - i" "1 \<le> right i"
      "length (m_keys h) - left i < length (m_keys h) - i" "1 \<le> left i"
      using True less.prems by (auto simp: left_def right_def)
    from less.hyps[OF this(1,2)] less.hyps[OF this(3,4)]
    obtain yr yl where
      yr: "\<And>todo result. find_le_loop lt key h (right i # todo) result = find_le_loop lt key h todo (result @ yr)"
      and yl: "\<And>todo result. find_le_loop lt key h (left i # todo) result = find_le_loop lt key h todo (result @ yl)"
      by blast
    have "\<forall>todo result. find_le_loop lt key h (i # todo) result
        = find_le_loop lt key h todo (result @ ([m_keys h ! i] @ yr @ yl))"
      using find_le_loop_visit[OF True yr yl] by blast
    then show ?thesis by blast
  qed
qed

lemma qualifying_iff:
  "x \<in> qualifying lt key h i \<longleftrightarrow>
     (\<exists>j. x = m_keys h ! j \<and> j < length (m_keys h) \<and> below i j \<and> \<not> lt key (m_keys h ! j))"
  unfolding qualifying_def by blast

lemma qualifying_pruned:
  assumes swo: "strict_weak_order lt" and ord: "heap_order lt h" and i: "1 \<le> i"
    and no: "\<not> (i < length (m_keys h) \<and> \<not> lt key (m_keys h ! i))"
  shows "qualifying lt key h i = {}"
proof -
  have "lt key (m_keys h ! j)" if j: "j < length (m_keys h)" "below i j" for j
  proof -
    have "i < length (m_keys h)" using below_le[OF j(2)] j(1) by simp
    with no have l: "lt key (m_keys h ! i)" by simp
    from j(2) obtain d where "j div 2 ^ d = i" unfolding below_def by blast
    from below_order[OF swo ord i this j(1)]
    have n: "\<not> lt (m_keys h ! j) (m_keys h ! i)" .
    show ?thesis
    proof (rule ccontr)
      assume "\<not> lt key (m_keys h ! j)"
      from swo_ntrans[OF swo this n] l show False by simp
    qed
  qed
  then have "\<And>x. x \<notin> qualifying lt key h i" unfolding qualifying_iff by blast
  then show ?thesis by blast
qed

lemma qualifying_split:
  assumes "i < length (m_keys h) \<and> \<not> lt key (m_keys h ! i)"
  shows "qualifying lt key h i
     = {m_keys h ! i} \<union> qualifying lt key h (right i) \<union> qualifying lt key h (left i)"
proof (intro set_eqI iffI)
  fix x assume "x \<in> qualifying lt key h i"
  then obtain j where j: "x = m_keys h ! j" "j < length (m_keys h)" "below i j" "\<not> lt key (m_keys h ! j)"
    unfolding qualifying_iff by blast
  from j(3) consider "j = i" | "below (left i) j" | "below (right i) j" using below_iff[of i j] by blast
  then show "x \<in> {m_keys h ! i} \<union> qualifying lt key h (right i) \<union> qualifying lt key h (left i)"
  proof cases
    case 1
    then show ?thesis using j(1) by simp
  next
    case 2
    then have "x \<in> qualifying lt key h (left i)" unfolding qualifying_iff using j by blast
    then show ?thesis by simp
  next
    case 3
    then have "x \<in> qualifying lt key h (right i)" unfolding qualifying_iff using j by blast
    then show ?thesis by simp
  qed
next
  fix x assume "x \<in> {m_keys h ! i} \<union> qualifying lt key h (right i) \<union> qualifying lt key h (left i)"
  then consider "x = m_keys h ! i" | "x \<in> qualifying lt key h (right i)" | "x \<in> qualifying lt key h (left i)"
    by blast
  then show "x \<in> qualifying lt key h i"
  proof cases
    case 1
    show ?thesis unfolding qualifying_iff using 1 assms below_refl[of i] by blast
  next
    case 2
    then obtain j where j: "x = m_keys h ! j" "j < length (m_keys h)" "below (right i) j" "\<not> lt key (m_keys h ! j)"
      unfolding qualifying_iff by blast
    have "below i j" using below_child[of i j] j(3) by blast
    then show ?thesis unfolding qualifying_iff using j by blast
  next
    case 3
    then obtain j where j: "x = m_keys h ! j" "j < length (m_keys h)" "below (left i) j" "\<not> lt key (m_keys h ! j)"
      unfolding qualifying_iff by blast
    have "below i j" using below_child[of i j] j(3) by blast
    then show ?thesis unfolding qualifying_iff using j by blast
  qed
qed

lemma div_pow_add: "(j::nat) div 2 ^ (d + k) = j div 2 ^ d div 2 ^ k"
  by (simp add: power_add div_mult2_eq)

lemma div_pow_le_half: "0 < k \<Longrightarrow> (n::nat) div 2 ^ k \<le> n div 2"
proof -
  assume "0 < k"
  then obtain k' where k: "k = Suc k'" by (cases k) auto
  have "n div 2 ^ k = n div 2 div 2 ^ k'" unfolding k by (rule div_pow_Suc')
  also have "\<dots> \<le> n div 2" by (rule div_le_dividend)
  finally show ?thesis .
qed

lemma subtrees_disjoint:
  assumes i: "1 \<le> i" and l: "below (left i) j" and r: "below (right i) j"
  shows False
proof -
  from l obtain d where d: "j div 2 ^ d = 2 * i" unfolding below_def left_def by blast
  from r obtain e where e: "j div 2 ^ e = 2 * i + 1" unfolding below_def right_def by blast
  consider "d = e" | "d < e" | "e < d" by linarith
  then show False
  proof cases
    case 1
    then show ?thesis using d e by simp
  next
    case 2
    then obtain k where k: "e = d + k" "0 < k" by (metis less_imp_add_positive)
    have "j div 2 ^ e = 2 * i div 2 ^ k" unfolding k(1) div_pow_add d ..
    also have "\<dots> \<le> 2 * i div 2" by (rule div_pow_le_half[OF k(2)])
    finally show ?thesis using e by simp
  next
    case 3
    then obtain k where k: "d = e + k" "0 < k" by (metis less_imp_add_positive)
    have "j div 2 ^ d = (2 * i + 1) div 2 ^ k" unfolding k(1) div_pow_add e ..
    also have "\<dots> \<le> (2 * i + 1) div 2" by (rule div_pow_le_half[OF k(2)])
    finally show ?thesis using d i by simp
  qed
qed

lemma qualifying_disjoint:
  assumes wf: "well_formed h" and i: "1 \<le> i"
  shows "m_keys h ! i \<notin> qualifying lt key h (right i)"
    and "m_keys h ! i \<notin> qualifying lt key h (left i)"
    and "qualifying lt key h (right i) \<inter> qualifying lt key h (left i) = {}"
proof -
  have slot: "j = j'" if "m_keys h ! j = m_keys h ! j'" "1 \<le> j" "j < length (m_keys h)"
    "1 \<le> j'" "j' < length (m_keys h)" for j j'
    using well_formed_distinct[OF wf that(2,3,4,5)] that(1) by blast
  show "m_keys h ! i \<notin> qualifying lt key h (right i)"
  proof
    assume "m_keys h ! i \<in> qualifying lt key h (right i)"
    then obtain j where j: "m_keys h ! i = m_keys h ! j" "j < length (m_keys h)" "below (right i) j"
      unfolding qualifying_iff by blast
    have le: "right i \<le> j" by (rule below_le[OF j(3)])
    then have ij: "i < j" using i by (simp add: right_def)
    then have "i < length (m_keys h)" "1 \<le> j" using j(2) i by simp_all
    then have "i = j" using slot[OF j(1) i _ _ j(2)] by simp
    with ij show False by simp
  qed
  show "m_keys h ! i \<notin> qualifying lt key h (left i)"
  proof
    assume "m_keys h ! i \<in> qualifying lt key h (left i)"
    then obtain j where j: "m_keys h ! i = m_keys h ! j" "j < length (m_keys h)" "below (left i) j"
      unfolding qualifying_iff by blast
    have le: "left i \<le> j" by (rule below_le[OF j(3)])
    then have ij: "i < j" using i by (simp add: left_def)
    then have "i < length (m_keys h)" "1 \<le> j" using j(2) i by simp_all
    then have "i = j" using slot[OF j(1) i _ _ j(2)] by simp
    with ij show False by simp
  qed
  show "qualifying lt key h (right i) \<inter> qualifying lt key h (left i) = {}"
  proof (rule ccontr)
    assume "qualifying lt key h (right i) \<inter> qualifying lt key h (left i) \<noteq> {}"
    then obtain x where "x \<in> qualifying lt key h (right i)" "x \<in> qualifying lt key h (left i)" by blast
    then obtain j j' where j: "x = m_keys h ! j" "j < length (m_keys h)" "below (right i) j"
      and j': "x = m_keys h ! j'" "j' < length (m_keys h)" "below (left i) j'"
      unfolding qualifying_iff by blast
    have "1 \<le> j" "1 \<le> j'" using below_le[OF j(3)] below_le[OF j'(3)] i by (simp_all add: left_def right_def)
    then have "j = j'" using slot[of j j'] j(1,2) j'(1,2) by simp
    then show False using subtrees_disjoint[OF i j'(3)] j(3) by simp
  qed
qed

lemma find_le_subtree_set:
  assumes swo: "strict_weak_order lt" and wf: "well_formed h" and ord: "heap_order lt h"
  shows "1 \<le> i \<Longrightarrow> \<exists>ys. (\<forall>todo result.
      find_le_loop lt key h (i # todo) result = find_le_loop lt key h todo (result @ ys)) \<and>
      set ys = qualifying lt key h i \<and> distinct ys"
proof (induction "length (m_keys h) - i" arbitrary: i rule: less_induct)
  case less
  show ?case
  proof (cases "i < length (m_keys h) \<and> \<not> lt key (m_keys h ! i)")
    case False
    have eq: "\<forall>todo result. find_le_loop lt key h (i # todo) result = find_le_loop lt key h todo (result @ [])"
      using False by (intro allI find_le_loop_skip)
    have "set [] = qualifying lt key h i"
      using qualifying_pruned[OF swo ord less.prems False] by simp
    with eq show ?thesis by (intro exI[of _ "[]"] conjI) simp_all
  next
    case True
    have "length (m_keys h) - right i < length (m_keys h) - i" "1 \<le> right i"
      "length (m_keys h) - left i < length (m_keys h) - i" "1 \<le> left i"
      using True less.prems by (auto simp: left_def right_def)
    from less.hyps[OF this(1,2)] less.hyps[OF this(3,4)]
    obtain yr yl where
      yr: "\<And>todo result. find_le_loop lt key h (right i # todo) result = find_le_loop lt key h todo (result @ yr)"
        "set yr = qualifying lt key h (right i)" "distinct yr"
      and yl: "\<And>todo result. find_le_loop lt key h (left i # todo) result = find_le_loop lt key h todo (result @ yl)"
        "set yl = qualifying lt key h (left i)" "distinct yl"
      by blast
    have eq: "\<forall>todo result. find_le_loop lt key h (i # todo) result
        = find_le_loop lt key h todo (result @ ([m_keys h ! i] @ yr @ yl))"
      using find_le_loop_visit[OF True yr(1) yl(1)] by blast
    have s: "set ([m_keys h ! i] @ yr @ yl) = qualifying lt key h i"
      unfolding qualifying_split[of i h lt key, OF True] using yr(2) yl(2) by simp
    have d: "distinct ([m_keys h ! i] @ yr @ yl)"
      using qualifying_disjoint[OF wf less.prems, of lt key] yr(2,3) yl(2,3) by simp
    from eq s d show ?thesis by (intro exI[of _ "[m_keys h ! i] @ yr @ yl"] conjI)
  qed
qed

lemma reachable_example_5:
  "reachable int_lt \<lparr>m_keys = [-1, 0, 1, 2, 3, 4], m_indices = [1, 2, 3, 4, 5]\<rparr> {0, 1, 2, 3, 4}"
proof -
  have 0: "reachable int_lt (heap_init 5) {}" by (rule reachable.construct[OF swo_int_lt])
  have 1: "reachable int_lt \<lparr>m_keys = [-1, 0], m_indices = [1, 0, 0, 0, 0]\<rparr> ({} \<union> {0})"
    by (rule reachable.insert[OF 0]) code_simp+
  have 2: "reachable int_lt \<lparr>m_keys = [-1, 0, 1], m_indices = [1, 2, 0, 0, 0]\<rparr> ({} \<union> {0} \<union> {1})"
    by (rule reachable.insert[OF 1]) code_simp+
  have 3: "reachable int_lt \<lparr>m_keys = [-1, 0, 1, 2], m_indices = [1, 2, 3, 0, 0]\<rparr> ({} \<union> {0} \<union> {1} \<union> {2})"
    by (rule reachable.insert[OF 2]) code_simp+
  have 4: "reachable int_lt \<lparr>m_keys = [-1, 0, 1, 2, 3], m_indices = [1, 2, 3, 4, 0]\<rparr>
      ({} \<union> {0} \<union> {1} \<union> {2} \<union> {3})"
    by (rule reachable.insert[OF 3]) code_simp+
  have 5: "reachable int_lt \<lparr>m_keys = [-1, 0, 1, 2, 3, 4], m_indices = [1, 2, 3, 4, 5]\<rparr>
      ({} \<union> {0} \<union> {1} \<union> {2} \<union> {3} \<union> {4})"
    by (rule reachable.insert[OF 4]) code_simp+
  have "{} \<union> {0} \<union> {1} \<union> {2} \<union> {3} \<union> {4} = {0, 1, 2, 3, 4::int}" by auto
  with 5 show ?thesis by simp
qed

lemma heap_inv_example_5:
  "heap_inv int_lt \<lparr>m_keys = [-1, 0, 1, 2, 3, 4], m_indices = [1, 2, 3, 4, 5]\<rparr>"
  using reachable_sound[OF reachable_example_5] by simp

text \<open>
  Claim C5. For every heap that satisfies the heap invariant (under a comparator that is
  a strict weak order) and every threshold \<open>t\<close>, \<open>find_le(t, result)\<close> returns, and
  the keys it appends to \<open>result\<close> are exactly the present keys \<open>k\<close> with
  \<open>!less_than(t, k)\<close>, each once, in some order. In particular, on a heap that holds
  the keys 0, 1, 2, 3, 4 under the ascending order, \<open>find_le(2, result)\<close> appends
  exactly the set \<open>{0, 1, 2}\<close>.
\<close>

theorem find_le_exact:
  assumes "strict_weak_order lt" "heap_inv lt h"
  shows "\<exists>ys. find_le lt t h result = Some (h, result @ ys) \<and>
              set ys = {k \<in> present h. \<not> lt t k} \<and> distinct ys \<and>
              (lt = int_lt \<and> present h = {0, 1, 2, 3, 4} \<and> t = 2 \<longrightarrow> set ys = {0, 1, 2})"
proof -
  have wf: "well_formed h" and ord: "heap_order lt h" using assms(2) by (simp_all add: heap_inv_def)
  from find_le_subtree_set[OF assms(1) wf ord, of 1 t]
  obtain ys where ys: "\<And>todo result. find_le_loop lt t h (1 # todo) result = find_le_loop lt t h todo (result @ ys)"
    "set ys = qualifying lt t h 1" "distinct ys"
    by blast
  have r: "find_le lt t h result = Some (h, result @ ys)"
    unfolding find_le_def ys(1)[of "[]" result] by (rule find_le_loop_Nil)
  have s: "set ys = {k \<in> present h. \<not> lt t k}"
  proof (intro set_eqI iffI)
    fix x assume "x \<in> set ys"
    then obtain j where j: "x = m_keys h ! j" "j < length (m_keys h)" "below 1 j" "\<not> lt t (m_keys h ! j)"
      unfolding ys(2) qualifying_iff by blast
    have "1 \<le> j" by (rule below_le[OF j(3)])
    then have "x \<in> present h" unfolding present_nth using j(1,2) by blast
    then show "x \<in> {k \<in> present h. \<not> lt t k}" using j(1,4) by simp
  next
    fix x assume "x \<in> {k \<in> present h. \<not> lt t k}"
    then obtain j where j: "x = m_keys h ! j" "1 \<le> j" "j < length (m_keys h)" "\<not> lt t x"
      unfolding present_nth by blast
    have "below 1 j" by (rule below_root[OF j(2)])
    then show "x \<in> set ys" unfolding ys(2) qualifying_iff using j by blast
  qed
  have "set ys = {0, 1, 2}" if "lt = int_lt" "present h = {0, 1, 2, 3, 4}" "t = 2"
    unfolding s that by (auto simp: int_lt_def)
  with r s ys(3) show ?thesis by blast
qed

theorem find_le_exact_witness:
  "strict_weak_order int_lt \<and>
   heap_inv int_lt \<lparr>m_keys = [-1, 0, 1, 2, 3, 4], m_indices = [1, 2, 3, 4, 5]\<rparr> \<and>
   (\<exists>ys. find_le int_lt 2 \<lparr>m_keys = [-1, 0, 1, 2, 3, 4], m_indices = [1, 2, 3, 4, 5]\<rparr> [7]
            = Some (\<lparr>m_keys = [-1, 0, 1, 2, 3, 4], m_indices = [1, 2, 3, 4, 5]\<rparr>, [7] @ ys) \<and>
          set ys = {0, 1, 2})"
proof -
  let ?h = "\<lparr>m_keys = [-1, 0, 1, 2, 3, 4], m_indices = [1, 2, 3, 4, 5]\<rparr>"
  have p: "present ?h = {0, 1, 2, 3, 4}" by (auto simp: present_def)
  from find_le_exact[OF swo_int_lt heap_inv_example_5, of 2 "[7]"] p
  obtain ys where ys: "find_le int_lt 2 ?h [7] = Some (?h, [7] @ ys)" "set ys = {0, 1, 2}" by blast
  with swo_int_lt heap_inv_example_5 show ?thesis by blast
qed

text \<open>
  Claim C10. \<open>find_le(t, result)\<close> returns on every heap, leaves \<open>m_keys\<close> and
  \<open>m_indices\<close> as they were, and only appends to \<open>result\<close>: the keys that were in
  \<open>result\<close> before the call are still there, first and in their order.
\<close>

theorem find_le_frame:
  "\<exists>h' ys. find_le lt t h result = Some (h', result @ ys) \<and>
            m_keys h' = m_keys h \<and> m_indices h' = m_indices h \<and> take (length result) (result @ ys) = result"
proof -
  from find_le_subtree_returns[of 1 lt t h]
  obtain ys where "\<And>todo result. find_le_loop lt t h (1 # todo) result = find_le_loop lt t h todo (result @ ys)"
    by auto
  then have "find_le lt t h result = Some (h, result @ ys)"
    unfolding find_le_def by (simp only: find_le_loop_Nil)
  then show ?thesis by simp
qed

theorem find_le_frame_witness:
  "find_le int_lt 3 \<lparr>m_keys = [-1, 1, 4, 3], m_indices = [0, 1, 0, 3, 2]\<rparr> [7, 9]
     = Some (\<lparr>m_keys = [-1, 1, 4, 3], m_indices = [0, 1, 0, 3, 2]\<rparr>, [7, 9, 1, 3])"
proof -
  from find_le_frame[of int_lt 3 "\<lparr>m_keys = [-1, 1, 4, 3], m_indices = [0, 1, 0, 3, 2]\<rparr>" "[7, 9]"]
  obtain h' ys where "find_le int_lt 3 \<lparr>m_keys = [-1, 1, 4, 3], m_indices = [0, 1, 0, 3, 2]\<rparr> [7, 9]
     = Some (h', [7, 9] @ ys)" by blast
  moreover have "find_le int_lt 3 \<lparr>m_keys = [-1, 1, 4, 3], m_indices = [0, 1, 0, 3, 2]\<rparr> [7, 9]
     = Some (\<lparr>m_keys = [-1, 1, 4, 3], m_indices = [0, 1, 0, 3, 2]\<rparr>, [7, 9, 1, 3])"
    by code_simp
  ultimately show ?thesis by simp
qed

section \<open>Insertion followed by removal\<close>

lemma below_trans: "below i j \<Longrightarrow> below j k \<Longrightarrow> below i k"
proof -
  assume "below i j" "below j k"
  then obtain d e where "j div 2 ^ d = i" "k div 2 ^ e = j" unfolding below_def by blast
  then have "k div 2 ^ (e + d) = i" by (simp only: div_pow_add)
  then show ?thesis unfolding below_def by blast
qed

lemma below_parent: "below i j \<Longrightarrow> j \<noteq> i \<Longrightarrow> below i (parent j)"
proof -
  assume a: "below i j" "j \<noteq> i"
  then obtain d where d: "j div 2 ^ d = i" unfolding below_def by blast
  with a(2) obtain e where e: "d = Suc e" by (cases d) auto
  have "parent j div 2 ^ e = i" using d unfolding e parent_def by (simp only: div_pow_Suc')
  then show ?thesis unfolding below_def by blast
qed

lemma below_parent_self: "below (parent j) j"
  unfolding below_def parent_def by (rule exI[of _ 1]) simp

lemma below_antisym: "below i j \<Longrightarrow> below j i \<Longrightarrow> i = j"
  using below_le[of i j] below_le[of j i] by simp

lemma below_zero: "below i 0 \<Longrightarrow> i = 0"
  using below_le[of i 0] by simp

lemma path_child:
  assumes "below idx t" "idx \<noteq> t" "1 \<le> idx"
  obtains c where "parent c = idx" "below c t" "\<And>s. parent s = idx \<Longrightarrow> s \<noteq> c \<Longrightarrow> \<not> below s t"
proof -
  from below_cases[OF assms(1)] assms(2) have "below (left idx) t \<or> below (right idx) t" by blast
  then show thesis
  proof
    assume l: "below (left idx) t"
    show thesis
    proof (rule that[of "left idx"])
      show "parent (left idx) = idx" by (simp add: parent_def left_def)
      show "below (left idx) t" by (rule l)
      fix s assume "parent s = idx" "s \<noteq> left idx"
      then have "s = right idx" using assms(3) by (simp add: children_iff)
      then show "\<not> below s t" using subtrees_disjoint[OF assms(3) l] by blast
    qed
  next
    assume r: "below (right idx) t"
    show thesis
    proof (rule that[of "right idx"])
      show "parent (right idx) = idx" by (simp add: parent_def right_def)
      show "below (right idx) t" by (rule r)
      fix s assume "parent s = idx" "s \<noteq> right idx"
      then have "s = left idx" using assms(3) by (simp add: children_iff)
      then show "\<not> below s t" using subtrees_disjoint[OF assms(3) _ r] by blast
    qed
  qed
qed

lemma on_path_step:
  assumes idx: "1 \<le> idx" and c: "parent c = idx" "below c t"
    and x: "x \<noteq> idx"
  shows "below idx x \<and> below x t \<longleftrightarrow> below c x \<and> below x t"
proof
  assume a: "below idx x \<and> below x t"
  have cc: "c = left idx \<or> c = right idx" using c(1) idx by (simp add: children_iff)
  from below_cases[of idx x] a x have "below (left idx) x \<or> below (right idx) x" by blast
  then have "below c x"
  proof
    assume l: "below (left idx) x"
    then have lt: "below (left idx) t" using a below_trans by blast
    show ?thesis
    proof (cases "c = left idx")
      case True
      then show ?thesis using l by simp
    next
      case False
      then have "c = right idx" using cc by simp
      then show ?thesis using subtrees_disjoint[OF idx lt] c(2) by blast
    qed
  next
    assume r: "below (right idx) x"
    then have rt: "below (right idx) t" using a below_trans by blast
    show ?thesis
    proof (cases "c = right idx")
      case True
      then show ?thesis using r by simp
    next
      case False
      then have "c = left idx" using cc by simp
      then show ?thesis using subtrees_disjoint[OF idx _ rt] c(2) by blast
    qed
  qed
  then show "below c x \<and> below x t" using a by simp
next
  assume a: "below c x \<and> below x t"
  have "below idx c" using below_parent_self[of c] c(1) by simp
  then show "below idx x \<and> below x t" using a below_trans by blast
qed

lemma strictly_before:
  assumes swo: "strict_weak_order lt" and ord: "heap_order lt h" and wf: "well_formed h"
    and nt: "no_ties lt h"
    and ij: "1 \<le> i" "below i j" "i \<noteq> j" "j < length (m_keys h)"
  shows "lt (m_keys h ! i) (m_keys h ! j)"
proof -
  from ij(2) obtain d where "j div 2 ^ d = i" unfolding below_def by blast
  from below_order[OF swo ord ij(1) this ij(4)]
  have n: "\<not> lt (m_keys h ! j) (m_keys h ! i)" .
  have le: "i < length (m_keys h)" "1 \<le> j" using below_le[OF ij(2)] ij(1,4) by simp_all
  have ne: "m_keys h ! i \<noteq> m_keys h ! j"
    by (rule well_formed_distinct[OF wf ij(1) le(1) le(2) ij(4) ij(3)])
  have "m_keys h ! i \<in> present h" "m_keys h ! j \<in> present h"
    unfolding present_nth using le ij by blast+
  with nt ne have "lt (m_keys h ! i) (m_keys h ! j) \<or> lt (m_keys h ! j) (m_keys h ! i)"
    unfolding no_ties_def by blast
  with n show ?thesis by simp
qed

lemma move_down_loop_leaf:
  "sz \<le> left idx \<Longrightarrow> move_down_loop lt key sz idx h = place h idx key"
  by (subst move_down_loop.simps) simp

lemma move_down_loop_inner:
  assumes "left idx < sz" "sz = length (m_keys h)"
  shows "move_down_loop lt key sz idx h =
     (if lt key (m_keys h ! min_child lt h sz idx) then place h idx key
      else case place h idx (m_keys h ! min_child lt h sz idx) of None \<Rightarrow> None
           | Some h' \<Rightarrow> move_down_loop lt key sz (min_child lt h sz idx) h')"
  apply (subst move_down_loop.simps)
  using assms unfolding min_child_def by (auto simp add: Let_def)

lemma shifted_off_path:
  assumes "shifted a t idx b" "c < length b" "c \<noteq> idx" "\<not> (below idx c \<and> below c t)"
  shows "b ! c = a ! c"
  using assms unfolding shifted_def by auto

lemma shifted_on_path:
  assumes "shifted a t idx b" "c < length b" "c \<noteq> idx" "below idx c" "below c t"
  shows "b ! c = a ! parent c"
  using assms unfolding shifted_def by auto

lemma shifted_done:
  assumes sh: "shifted a t t b" and len: "length b = length a" and t: "t < length a"
  shows "b[t := a ! t] = a"
proof (rule nth_equalityI)
  show "length (b[t := a ! t]) = length a" using len by simp
next
  fix c assume c: "c < length (b[t := a ! t])"
  show "b[t := a ! t] ! c = a ! c"
  proof (cases "c = t")
    case True
    then show ?thesis using t len by simp
  next
    case False
    have "\<not> (below t c \<and> below c t)" using below_antisym[of t c] False by blast
    from shifted_off_path[OF sh _ False this] c False show ?thesis by simp
  qed
qed

lemma sift_down_path:
  assumes swo: "strict_weak_order lt" and ord: "heap_order lt h" and wf: "well_formed h"
    and nt: "no_ties lt h"
  shows "below idx (parent n) \<Longrightarrow> 1 \<le> idx \<Longrightarrow> n = length (m_keys h) \<Longrightarrow> length (m_keys m) = n \<Longrightarrow>
     shifted (m_keys h) (parent n) idx (m_keys m) \<Longrightarrow>
     well_formed (fill m idx (m_keys h ! parent n)) \<Longrightarrow>
     \<exists>h4. move_down_loop lt (m_keys h ! parent n) n idx m = Some h4 \<and> m_keys h4 = m_keys h"
proof (induction "parent n - idx" arbitrary: idx m rule: less_induct)
  case less
  let ?a = "m_keys h"
  let ?t = "parent n"
  let ?p = "?a ! ?t"
  note bel = less.prems(1) and idx = less.prems(2) and n = less.prems(3) and len = less.prems(4)
    and sh = less.prems(5) and wfm = less.prems(6)
  have it: "idx \<le> ?t" by (rule below_le[OF bel])
  have tn: "?t < n" "2 \<le> n" using it idx by (auto simp: parent_def)
  have il: "idx < length (m_keys m)" using it tn len by simp
  note pr = well_formed_fill_range[OF wfm idx il]
  have pl: "place m idx ?p = Some (fill m idx ?p)" using il pr by (simp add: place_eq)
  show ?case
  proof (cases "idx = ?t")
    case True
    have keys: "m_keys (fill m idx ?p) = ?a"
      using shifted_done[of ?a ?t "m_keys m"] sh len n tn True by simp
    have "move_down_loop lt ?p n idx m = Some (fill m idx ?p)"
    proof (cases "n \<le> left idx")
      case True
      then show ?thesis using pl by (simp add: move_down_loop_leaf)
    next
      case False
      then have l: "left idx < n" by simp
      have "n = left idx \<or> n = right idx" using True idx by (simp add: children_iff[symmetric])
      with l have r: "right idx = n" by simp
      have mc: "min_child lt m n idx = left idx" by (simp add: min_child_def r)
      have lne: "left idx \<noteq> idx" using idx by (simp add: left_def)
      have "below idx (left idx)" using below_child[of idx "left idx"] below_refl by blast
      moreover have "\<not> below (left idx) ?t" using below_le[of "left idx" ?t] True lne idx by (auto simp: left_def)
      ultimately have v: "m_keys m ! left idx = ?a ! left idx"
        using shifted_off_path[OF sh _ lne] l len by simp
      have "lt (?a ! idx) (?a ! left idx)"
        using strictly_before[OF swo ord wf nt idx \<open>below idx (left idx)\<close> lne[symmetric]] l n by simp
      then have "lt ?p (m_keys m ! min_child lt m n idx)" using True v mc by simp
      then show ?thesis using pl l len by (simp add: move_down_loop_inner)
    qed
    with keys show ?thesis by blast
  next
    case False
    from path_child[OF bel False idx] obtain c where
      c: "parent c = idx" "below c ?t" "\<And>s. parent s = idx \<Longrightarrow> s \<noteq> c \<Longrightarrow> \<not> below s ?t"
      by blast
    have cc: "c = left idx \<or> c = right idx" using c(1) idx by (simp add: children_iff)
    have ct: "c \<le> ?t" by (rule below_le[OF c(2)])
    have ci: "idx < c" "c \<noteq> idx" "1 \<le> c" "c < n" using c(1) idx ct tn by (auto simp: parent_def)
    have l: "left idx < n" using cc ct tn by (auto simp: left_def right_def)
    have bic: "below idx c" using below_parent_self[of c] c(1) by simp
    have vc: "m_keys m ! c = ?a ! idx"
      using shifted_on_path[OF sh _ ci(2) bic c(2)] ci(4) len c(1) by simp
    have i_lt: "idx < n" using ci by simp
    have mc: "min_child lt m n idx = c"
    proof (cases "c = left idx")
      case True
      show ?thesis
      proof (cases "right idx < n")
        case r: True
        have rne: "right idx \<noteq> idx" "right idx \<noteq> c" using True by (simp_all add: left_def right_def)
        have pr: "parent (right idx) = idx" by (simp add: parent_def right_def)
        have "\<not> below (right idx) ?t" by (rule c(3)[OF pr rne(2)])
        then have v: "m_keys m ! right idx = ?a ! right idx"
          using shifted_off_path[OF sh _ rne(1)] r len by simp
        have "below idx (right idx)" using below_parent_self[of "right idx"] pr by simp
        from strictly_before[OF swo ord wf nt idx this rne(1)[symmetric]] r n
        have "lt (?a ! idx) (?a ! right idx)" by simp
        then have "\<not> lt (m_keys m ! right idx) (m_keys m ! left idx)"
          using swo_asym[OF swo] v vc True by simp
        then show ?thesis using True by (simp add: min_child_def)
      next
        case False
        then show ?thesis using True by (simp add: min_child_def)
      qed
    next
      case False
      then have cr: "c = right idx" using cc by simp
      have lne: "left idx \<noteq> idx" "left idx \<noteq> c" using cr idx by (simp_all add: left_def right_def)
      have pl': "parent (left idx) = idx" by (simp add: parent_def left_def)
      have "\<not> below (left idx) ?t" by (rule c(3)[OF pl' lne(2)])
      then have v: "m_keys m ! left idx = ?a ! left idx"
        using shifted_off_path[OF sh _ lne(1)] l len by simp
      have "below idx (left idx)" using below_parent_self[of "left idx"] pl' by simp
      from strictly_before[OF swo ord wf nt idx this lne(1)[symmetric]] l n
      have "lt (?a ! idx) (?a ! left idx)" by simp
      then show ?thesis using cr ci(4) v vc by (simp add: min_child_def)
    qed
    obtain d where "?t div 2 ^ d = idx" using bel unfolding below_def by blast
    from below_order[OF swo ord idx this] tn n
    have nlt: "\<not> lt ?p (?a ! idx)" by simp
    let ?m' = "fill m idx (?a ! idx)"
    have ar: "0 \<le> ?a ! idx" "?a ! idx < int (length (m_indices m))"
      using well_formed_key_range[OF wfm ci(3)] ci(2,4) len vc by simp_all
    have pl1: "place m idx (?a ! idx) = Some ?m'" using il ar by (simp add: place_eq)
    have r: "move_down_loop lt ?p n idx m = move_down_loop lt ?p n c ?m'"
      using l len nlt pl1 by (simp add: move_down_loop_inner mc vc)
    have pne: "?p \<noteq> ?a ! idx"
      using well_formed_distinct[OF wf _ _ idx _ , of ?t] False it idx tn n i_lt by simp
    have ex: "fill ?m' c ?p = exch (fill m idx ?p) idx c"
      using fill_fill_exch[of idx c m "?a ! idx" ?p] ci(2) vc pne pr(1) ar(1) il by simp
    have wf1: "well_formed (fill ?m' c ?p)"
      unfolding ex using well_formed_exch[OF wfm idx _ ci(3)] il ci len by simp
    have sh1: "shifted ?a ?t c (m_keys ?m')"
      unfolding shifted_def
    proof (intro allI impI)
      fix x assume x: "x < length (m_keys ?m') \<and> x \<noteq> c"
      show "m_keys ?m' ! x = (if below c x \<and> below x ?t then ?a ! parent x else ?a ! x)"
      proof (cases "x = idx")
        case True
        have "\<not> below c idx" using below_le[of c idx] ci(1) by auto
        then show ?thesis using True il by simp
      next
        case False
        have "m_keys ?m' ! x = m_keys m ! x" using False by simp
        also have "\<dots> = (if below idx x \<and> below x ?t then ?a ! parent x else ?a ! x)"
          using sh x False unfolding shifted_def by simp
        also have "\<dots> = (if below c x \<and> below x ?t then ?a ! parent x else ?a ! x)"
          using on_path_step[OF idx c(1,2) False] by simp
        finally show ?thesis .
      qed
    qed
    have d: "?t - c < ?t - idx" using ci(1) ct by simp
    have "\<exists>h4. move_down_loop lt ?p n c ?m' = Some h4 \<and> m_keys h4 = ?a"
      using less.hyps[OF d c(2) ci(3) n _ sh1 wf1] len by simp
    with r show ?thesis by simp
  qed
qed

lemma erase_last_eq:
  assumes wf: "well_formed h" and c: "contains h key = Some True"
    and i: "m_indices h ! nat key = length (m_keys h) - 1"
  shows "erase lt key h = Some (dropped_last h)"
proof -
  note sl = contains_slot[OF wf c]
  have n2: "2 \<le> length (m_keys h)" using sl(1,2) by simp
  have ne: "m_keys h \<noteq> []" using n2 by auto
  have l: "last (m_keys h) = key" using i sl(3) ne by (simp add: last_conv_nth)
  have ie: "int (m_indices h ! nat key) = int (length (m_keys h)) - 1" using i n2 by (simp add: of_nat_diff)
  show ?thesis
    using last_range[OF wf n2] c ie
    by (simp add: erase_def l[symmetric] Let_def clear_index_def pop_back_def dropped_last_def ne)
qed

lemma erase_inner_eq:
  assumes wf: "well_formed h" and c: "contains h key = Some True"
    and i: "m_indices h ! nat key \<noteq> length (m_keys h) - 1"
  shows "erase lt key h =
     (if parent (m_indices h ! nat key) \<noteq> 0 \<and>
         lt (last (m_keys h)) (m_keys h ! parent (m_indices h ! nat key))
      then move_up lt (m_indices h ! nat key) (moved_last h (m_indices h ! nat key))
      else move_down lt (m_indices h ! nat key) (moved_last h (m_indices h ! nat key)))"
proof -
  let ?idx = "m_indices h ! nat key"
  let ?g = "moved_last h ?idx"
  let ?l = "last (m_keys h)"
  note sl = contains_slot[OF wf c]
  have kr: "0 \<le> key" "key < int (length (m_indices h))" using c by (auto simp: contains_True_iff)
  have n2: "2 \<le> length (m_keys h)" using sl(1,2) by simp
  have ne: "m_keys h \<noteq> []" using n2 by auto
  have n3: "?idx + 1 < length (m_keys h)" using i sl(2) by simp
  have pl: "parent ?idx < length (m_keys h) - 1" "parent ?idx \<noteq> ?idx" using n3 sl(1) by (auto simp: parent_def)
  have gp: "m_keys ?g ! parent ?idx = m_keys h ! parent ?idx" using pl by (simp add: moved_last_nth)
  have ie: "int ?idx \<noteq> int (length (m_keys h)) - 1" using i n2 by (simp add: of_nat_diff)
  have g: "?idx < length (m_keys h)" "0 \<le> ?l" "?l < int (length (m_indices h))"
    using sl(2) last_range[OF wf n2] by simp_all
  have st: "place h ?idx ?l = Some (fill h ?idx ?l)" using g by (simp add: place_eq)
  have st2: "clear_index (fill h ?idx ?l) key = Some ((fill h ?idx ?l)\<lparr>m_indices := (m_indices h)[nat ?l := ?idx, nat key := 0]\<rparr>)"
    using kr by (simp add: clear_index_def)
  have st3: "pop_back ((fill h ?idx ?l)\<lparr>m_indices := (m_indices h)[nat ?l := ?idx, nat key := 0]\<rparr>) = Some ?g"
    using ne sl(3) by (simp add: pop_back_def moved_last_def fill_def)
  show ?thesis
    unfolding erase_def using c ie ne pl gp
    by (simp add: Let_def st st2 st3 moved_last_sel)
qed

lemma below_parent_iff: "c \<noteq> n \<Longrightarrow> below c n \<longleftrightarrow> below c (parent n)"
  using below_parent[of c n] below_trans[OF _ below_parent_self[of n], of c] by blast

lemma insert_erase_path:
  assumes swo: "strict_weak_order lt" and ord: "heap_order lt h" and wf: "well_formed h"
    and nt: "no_ties lt h"
  shows "below idx n \<Longrightarrow> 1 \<le> idx \<Longrightarrow> n = length (m_keys h) \<Longrightarrow> length (m_keys g) = Suc n \<Longrightarrow>
     shifted (m_keys h) n idx (m_keys g) \<Longrightarrow> well_formed (fill g idx k) \<Longrightarrow>
     \<exists>h3 h4. move_up_loop lt k idx g = Some h3 \<and> erase lt k h3 = Some h4 \<and> m_keys h4 = m_keys h"
proof (induction idx arbitrary: g rule: less_induct)
  case (less idx)
  let ?a = "m_keys h"
  let ?q = "parent idx"
  note bel = less.prems(1) and idx = less.prems(2) and n = less.prems(3) and len = less.prems(4)
    and sh = less.prems(5) and wfg = less.prems(6)
  have i_n: "idx \<le> n" by (rule below_le[OF bel])
  have il: "idx < length (m_keys g)" using i_n len by simp
  note kr = well_formed_fill_range[OF wfg idx il]
  have pl: "place g idx k = Some (fill g idx k)" using il kr by (simp add: place_eq)
  have q: "?q < length (m_keys g)" "?q \<noteq> idx" "?q < idx" using idx il by (auto simp: parent_def)
  have nbq: "\<not> below idx ?q" using below_le[of idx ?q] q(3) by auto
  have vq: "m_keys g ! ?q = ?a ! ?q" by (rule shifted_off_path[OF sh q(1,2)]) (simp add: nbq)
  have step: "move_up_loop lt k idx g =
       (if ?q = 0 \<or> \<not> lt k (?a ! ?q) then place g idx k
        else case place g idx (?a ! ?q) of None \<Rightarrow> None
             | Some h' \<Rightarrow> move_up_loop lt k ?q h')"
    by (subst move_up_loop.simps) (simp add: Let_def q(1) vq)
  show ?case
  proof (cases "?q = 0 \<or> \<not> lt k (?a ! ?q)")
    case True
    let ?h3 = "fill g idx k"
    have up: "move_up_loop lt k idx g = Some ?h3" using step True pl by simp
    have ik: "m_indices ?h3 ! nat k = idx" using kr by simp
    have con: "contains ?h3 k = Some True"
      using kr idx by (simp add: contains_True_iff)
    have len3: "length (m_keys ?h3) = Suc n" using len by simp
    have "\<exists>h4. erase lt k ?h3 = Some h4 \<and> m_keys h4 = ?a"
    proof (cases "idx = n")
      case e: True
      have "idx = length (m_keys ?h3) - 1" using len e by simp
      with ik have "m_indices ?h3 ! nat k = length (m_keys ?h3) - 1" by (rule trans)
      then have er: "erase lt k ?h3 = Some (dropped_last ?h3)"
        by (rule erase_last_eq[OF wfg con])
      have "m_keys (dropped_last ?h3) = ?a"
      proof (rule nth_equalityI)
        show "length (m_keys (dropped_last ?h3)) = length ?a"
          using len n by (simp add: dropped_last_def)
      next
        fix c assume "c < length (m_keys (dropped_last ?h3))"
        then have c: "c < n" using len by (simp add: dropped_last_def)
        have "\<not> (below idx c \<and> below c n)" using below_le[of idx c] e c by auto
        from shifted_off_path[OF sh _ _ this] c len e
        have "m_keys g ! c = ?a ! c" by simp
        then show "m_keys (dropped_last ?h3) ! c = ?a ! c"
          using c len3 e dropped_last_nth[of c ?h3] by simp
      qed
      with er show ?thesis by blast
    next
      case ne: False
      then have i_lt: "idx < n" using i_n by simp
      let ?m = "moved_last ?h3 idx"
      let ?p = "?a ! parent n"
      have n2: "2 \<le> n" "parent n < n" "1 \<le> parent n" using i_lt idx by (auto simp: parent_def)
      have bp: "below idx (parent n)" by (rule below_parent[OF bel ne[symmetric]])
      have nne: "m_keys ?h3 \<noteq> []" using len3 by auto
      have "last (m_keys ?h3) = m_keys ?h3 ! n" using len3 nne by (simp add: last_conv_nth)
      also have "\<dots> = m_keys g ! n" using ne by simp
      also have "\<dots> = ?p"
        using shifted_on_path[OF sh _ ne[symmetric] bel below_refl] len by simp
      finally have last: "last (m_keys ?h3) = ?p" .
      have e1: "m_indices ?h3 ! nat k \<noteq> length (m_keys ?h3) - 1" using ik len3 ne by simp
      have top: "\<not> (?q \<noteq> 0 \<and> lt ?p (m_keys ?h3 ! ?q))"
      proof
        assume t: "?q \<noteq> 0 \<and> lt ?p (m_keys ?h3 ! ?q)"
        then have q1: "1 \<le> ?q" by simp
        have "below ?q (parent n)" using below_trans[OF below_parent_self[of idx] bp] .
        then obtain d where "parent n div 2 ^ d = ?q" unfolding below_def by blast
        from below_order[OF swo ord q1 this] n2 n have "\<not> lt ?p (?a ! ?q)" by simp
        moreover have "m_keys ?h3 ! ?q = ?a ! ?q" using q(2) vq by simp
        ultimately show False using t by simp
      qed
      note e2 = erase_inner_eq[OF wfg con e1, of lt, unfolded ik last]
      have er: "erase lt k ?h3 = move_down lt idx ?m"
        unfolding e2 using top by (rule if_not_P)
      have lenm: "length (m_keys ?m) = n" using len3 by (simp add: moved_last_sel)
      have wfm: "well_formed ?m"
        using i_lt len by (intro well_formed_moved_last[OF wfg idx]) simp
      have mi: "m_keys ?m ! idx = ?p" using i_lt len3 last by (simp add: moved_last_nth)
      have fs: "fill ?m idx ?p = ?m" using fill_self[OF wfm idx] lenm i_lt mi by simp
      have shm: "shifted ?a (parent n) idx (m_keys ?m)"
        unfolding shifted_def
      proof (intro allI impI)
        fix c assume c: "c < length (m_keys ?m) \<and> c \<noteq> idx"
        then have cn: "c < n" "c \<noteq> n" using lenm by simp_all
        have "m_keys ?m ! c = m_keys g ! c" using c cn len3 by (simp add: moved_last_nth)
        also have "\<dots> = (if below idx c \<and> below c n then ?a ! parent c else ?a ! c)"
          using sh c cn len unfolding shifted_def by simp
        also have "\<dots> = (if below idx c \<and> below c (parent n) then ?a ! parent c else ?a ! c)"
          using below_parent_iff[OF cn(2)] by simp
        finally show "m_keys ?m ! c = (if below idx c \<and> below c (parent n) then ?a ! parent c else ?a ! c)" .
      qed
      have "\<exists>h4. move_down_loop lt ?p n idx ?m = Some h4 \<and> m_keys h4 = ?a"
        by (rule sift_down_path[OF swo ord wf nt bp idx n lenm shm]) (simp add: fs wfm)
      then show ?thesis using er i_lt lenm mi by (simp add: move_down_def)
    qed
    with up show ?thesis by blast
  next
    case False
    then have q1: "1 \<le> ?q" and ltk: "lt k (?a ! ?q)" by simp_all
    let ?g' = "fill g idx (?a ! ?q)"
    have qr: "0 \<le> ?a ! ?q" "?a ! ?q < int (length (m_indices g))"
      using well_formed_key_range[OF wfg q1] q(1,2) vq by simp_all
    have pl1: "place g idx (?a ! ?q) = Some ?g'" using il qr by (simp add: place_eq)
    have r: "move_up_loop lt k idx g = move_up_loop lt k ?q ?g'"
      using step False pl1 by simp
    have kne: "k \<noteq> ?a ! ?q"
      using well_formed_distinct[OF wfg idx _ q1] il q(1,2) vq by simp
    have ex: "fill ?g' ?q k = exch (fill g idx k) idx ?q"
      using fill_fill_exch[of idx ?q g "?a ! ?q" k] q(2) vq kne kr(1) qr(1) il by simp
    have wf1: "well_formed (fill ?g' ?q k)"
      unfolding ex using well_formed_exch[OF wfg idx _ q1] il q(1,2) by simp
    have bq: "below ?q n" by (rule below_trans[OF below_parent_self bel])
    have sh1: "shifted ?a n ?q (m_keys ?g')"
      unfolding shifted_def
    proof (intro allI impI)
      fix x assume x: "x < length (m_keys ?g') \<and> x \<noteq> ?q"
      show "m_keys ?g' ! x = (if below ?q x \<and> below x n then ?a ! parent x else ?a ! x)"
      proof (cases "x = idx")
        case True
        then show ?thesis using il bel below_parent_self[of idx] by simp
      next
        case False
        have "m_keys ?g' ! x = m_keys g ! x" using False by simp
        also have "\<dots> = (if below idx x \<and> below x n then ?a ! parent x else ?a ! x)"
          using sh x False unfolding shifted_def by simp
        also have "\<dots> = (if below ?q x \<and> below x n then ?a ! parent x else ?a ! x)"
          using on_path_step[OF q1 refl bel, of x] x by simp
        finally show ?thesis .
      qed
    qed
    have "\<exists>h3 h4. move_up_loop lt k ?q ?g' = Some h3 \<and> erase lt k h3 = Some h4 \<and> m_keys h4 = ?a"
      using less.IH[OF q(3) bq q1 n _ sh1 wf1] len by simp
    with r show ?thesis by simp
  qed
qed

lemma swo_half_lt: "strict_weak_order half_lt"
  unfolding strict_weak_order_def half_lt_def by auto

lemma index_unique:
  assumes a: "well_formed a" and b: "well_formed b" and k: "m_keys a = m_keys b"
    and l: "length (m_indices a) = length (m_indices b)"
  shows "m_indices a = m_indices b"
proof (rule nth_equalityI[OF l])
  fix i assume i: "i < length (m_indices a)"
  have one: "m_indices y ! i = m_indices x ! i"
    if x: "well_formed x" and y: "well_formed y" and xy: "m_keys x = m_keys y"
      and len: "length (m_indices x) = length (m_indices y)" and ix: "i < length (m_indices x)"
      and nz: "m_indices x ! i \<noteq> 0" for x y
  proof -
    have "index_sound x" "index_ok y" using x y by (simp_all add: well_formed_def)
    from index_soundD[OF this(1) ix nz]
    have s: "m_indices x ! i < length (m_keys y)" "m_keys y ! (m_indices x ! i) = int i"
      using xy by simp_all
    from index_okD(3)[OF \<open>index_ok y\<close> _ s(1)] nz s(2) show ?thesis by simp
  qed
  show "m_indices a ! i = m_indices b ! i"
  proof (cases "m_indices a ! i = 0")
    case False
    from one[OF a b k l i False] show ?thesis by simp
  next
    case True
    show ?thesis
    proof (cases "m_indices b ! i = 0")
      case True
      with \<open>m_indices a ! i = 0\<close> show ?thesis by simp
    next
      case False
      from one[OF b a k[symmetric] l[symmetric] _ False] i l show ?thesis by simp
    qed
  qed
qed

lemma shifted_pushed: "shifted a (length a) (length a) (a @ [k])"
  unfolding shifted_def
proof (intro allI impI)
  fix c assume c: "c < length (a @ [k]) \<and> c \<noteq> length a"
  then have "c < length a" by simp
  moreover from this have "\<not> below (length a) c" using below_le[of "length a" c] by auto
  ultimately show "(a @ [k]) ! c = (if below (length a) c \<and> below c (length a) then a ! parent c else a ! c)"
    by (simp add: nth_append)
qed

text \<open>
  Claim C6, as stated, fails when present keys tie: \<open>move_down\<close> stops only at a
  strictly larger child. Under the comparator that orders keys by \<open>key / 2\<close> the heap
  holding 2 in slot 1 and 3 in slot 2 (a tie) is valid; \<open>insert(0)\<close> followed by
  \<open>erase(0)\<close> leaves 3 in slot 1 and 2 in slot 2.
\<close>

theorem round_trip_fails_on_tie:
  "strict_weak_order half_lt \<and>
   heap_insert half_lt 2 (heap_init 4) = Some \<lparr>m_keys = [-1, 2], m_indices = [0, 0, 1, 0]\<rparr> \<and>
   heap_insert half_lt 3 \<lparr>m_keys = [-1, 2], m_indices = [0, 0, 1, 0]\<rparr>
     = Some \<lparr>m_keys = [-1, 2, 3], m_indices = [0, 0, 1, 2]\<rparr> \<and>
   is_valid_value \<lparr>m_keys = [-1, 2, 3], m_indices = [0, 0, 1, 2]\<rparr> 0 \<and>
   contains \<lparr>m_keys = [-1, 2, 3], m_indices = [0, 0, 1, 2]\<rparr> 0 = Some False \<and>
   heap_insert half_lt 0 \<lparr>m_keys = [-1, 2, 3], m_indices = [0, 0, 1, 2]\<rparr>
     = Some \<lparr>m_keys = [-1, 0, 3, 2], m_indices = [1, 0, 3, 2]\<rparr> \<and>
   erase half_lt 0 \<lparr>m_keys = [-1, 0, 3, 2], m_indices = [1, 0, 3, 2]\<rparr>
     = Some \<lparr>m_keys = [-1, 3, 2], m_indices = [0, 0, 2, 1]\<rparr> \<and>
   m_keys \<lparr>m_keys = [-1, 3, 2], m_indices = [0, 0, 2, 1]\<rparr>
     \<noteq> m_keys \<lparr>m_keys = [-1, 2, 3], m_indices = [0, 0, 1, 2]\<rparr>"
proof -
  have "heap_insert half_lt 2 (heap_init 4) = Some \<lparr>m_keys = [-1, 2], m_indices = [0, 0, 1, 0]\<rparr>"
    by code_simp
  moreover have "heap_insert half_lt 3 \<lparr>m_keys = [-1, 2], m_indices = [0, 0, 1, 0]\<rparr>
     = Some \<lparr>m_keys = [-1, 2, 3], m_indices = [0, 0, 1, 2]\<rparr>"
    by code_simp
  moreover have "is_valid_value \<lparr>m_keys = [-1, 2, 3], m_indices = [0, 0, 1, 2]\<rparr> 0"
    by code_simp
  moreover have "contains \<lparr>m_keys = [-1, 2, 3], m_indices = [0, 0, 1, 2]\<rparr> 0 = Some False"
    by code_simp
  moreover have "heap_insert half_lt 0 \<lparr>m_keys = [-1, 2, 3], m_indices = [0, 0, 1, 2]\<rparr>
     = Some \<lparr>m_keys = [-1, 0, 3, 2], m_indices = [1, 0, 3, 2]\<rparr>"
    by code_simp
  moreover have "erase half_lt 0 \<lparr>m_keys = [-1, 0, 3, 2], m_indices = [1, 0, 3, 2]\<rparr>
     = Some \<lparr>m_keys = [-1, 3, 2], m_indices = [0, 0, 2, 1]\<rparr>"
    by code_simp
  moreover have "m_keys \<lparr>m_keys = [-1, 3, 2], m_indices = [0, 0, 2, 1]\<rparr>
     \<noteq> m_keys \<lparr>m_keys = [-1, 2, 3], m_indices = [0, 0, 1, 2]\<rparr>"
    by simp
  ultimately show ?thesis using swo_half_lt by blast
qed

text \<open>
  The round trip also fails where the key that \<open>erase\<close> moves back meets no tied child.
  Under the same comparator the heap that holds 2, 3, 4, 6, 8 in slots 1 to 5 is reached
  by inserting these keys in this order on a heap of capacity 9; 2 and 3 are tied.
  \<open>insert(0)\<close> moves 4 to slot 6 and 2 to slot 3. \<open>erase(0)\<close> then sifts 4 down from
  slot 1: there its children 3 and 2 are tied and the left one is taken, 4 sorts
  strictly after it, and one level down 4 sorts strictly before its smaller child 6.
  So 4 ends in slot 2, and 3 and 2 are left in slots 1 and 3.
\<close>

lemma reachable_tied_siblings:
  "reachable half_lt \<lparr>m_keys = [-1, 2, 3, 4, 6, 8], m_indices = [0, 0, 1, 2, 3, 0, 4, 0, 5]\<rparr> {2, 3, 4, 6, 8}"
proof -
  have 0: "reachable half_lt (heap_init 9) {}" by (rule reachable.construct[OF swo_half_lt])
  have 1: "reachable half_lt \<lparr>m_keys = [-1, 2], m_indices = [0, 0, 1, 0, 0, 0, 0, 0, 0]\<rparr> ({} \<union> {2})"
    by (rule reachable.insert[OF 0]) code_simp+
  have 2: "reachable half_lt \<lparr>m_keys = [-1, 2, 3], m_indices = [0, 0, 1, 2, 0, 0, 0, 0, 0]\<rparr>
      ({} \<union> {2} \<union> {3})"
    by (rule reachable.insert[OF 1]) code_simp+
  have 3: "reachable half_lt \<lparr>m_keys = [-1, 2, 3, 4], m_indices = [0, 0, 1, 2, 3, 0, 0, 0, 0]\<rparr>
      ({} \<union> {2} \<union> {3} \<union> {4})"
    by (rule reachable.insert[OF 2]) code_simp+
  have 4: "reachable half_lt \<lparr>m_keys = [-1, 2, 3, 4, 6], m_indices = [0, 0, 1, 2, 3, 0, 4, 0, 0]\<rparr>
      ({} \<union> {2} \<union> {3} \<union> {4} \<union> {6})"
    by (rule reachable.insert[OF 3]) code_simp+
  have 5: "reachable half_lt \<lparr>m_keys = [-1, 2, 3, 4, 6, 8], m_indices = [0, 0, 1, 2, 3, 0, 4, 0, 5]\<rparr>
      ({} \<union> {2} \<union> {3} \<union> {4} \<union> {6} \<union> {8})"
    by (rule reachable.insert[OF 4]) code_simp+
  have "{} \<union> {2} \<union> {3} \<union> {4} \<union> {6} \<union> {8} = {2, 3, 4, 6, 8::int}" by auto
  with 5 show ?thesis by simp
qed

lemma round_trip_fails_between_tied_siblings:
  "heap_inv half_lt \<lparr>m_keys = [-1, 2, 3, 4, 6, 8], m_indices = [0, 0, 1, 2, 3, 0, 4, 0, 5]\<rparr> \<and>
   \<not> half_lt 2 3 \<and> \<not> half_lt 3 2 \<and> half_lt 3 4 \<and> half_lt 4 6 \<and>
   is_valid_value \<lparr>m_keys = [-1, 2, 3, 4, 6, 8], m_indices = [0, 0, 1, 2, 3, 0, 4, 0, 5]\<rparr> 0 \<and>
   contains \<lparr>m_keys = [-1, 2, 3, 4, 6, 8], m_indices = [0, 0, 1, 2, 3, 0, 4, 0, 5]\<rparr> 0 = Some False \<and>
   heap_insert half_lt 0 \<lparr>m_keys = [-1, 2, 3, 4, 6, 8], m_indices = [0, 0, 1, 2, 3, 0, 4, 0, 5]\<rparr>
     = Some \<lparr>m_keys = [-1, 0, 3, 2, 6, 8, 4], m_indices = [1, 0, 3, 2, 6, 0, 4, 0, 5]\<rparr> \<and>
   erase half_lt 0 \<lparr>m_keys = [-1, 0, 3, 2, 6, 8, 4], m_indices = [1, 0, 3, 2, 6, 0, 4, 0, 5]\<rparr>
     = Some \<lparr>m_keys = [-1, 3, 4, 2, 6, 8], m_indices = [0, 0, 3, 1, 2, 0, 4, 0, 5]\<rparr> \<and>
   m_keys \<lparr>m_keys = [-1, 3, 4, 2, 6, 8], m_indices = [0, 0, 3, 1, 2, 0, 4, 0, 5]\<rparr>
     \<noteq> m_keys \<lparr>m_keys = [-1, 2, 3, 4, 6, 8], m_indices = [0, 0, 1, 2, 3, 0, 4, 0, 5]\<rparr>"
proof -
  have "heap_inv half_lt \<lparr>m_keys = [-1, 2, 3, 4, 6, 8], m_indices = [0, 0, 1, 2, 3, 0, 4, 0, 5]\<rparr>"
    using reachable_sound[OF reachable_tied_siblings] by simp
  moreover have "is_valid_value \<lparr>m_keys = [-1, 2, 3, 4, 6, 8], m_indices = [0, 0, 1, 2, 3, 0, 4, 0, 5]\<rparr> 0"
    by code_simp
  moreover have "contains \<lparr>m_keys = [-1, 2, 3, 4, 6, 8], m_indices = [0, 0, 1, 2, 3, 0, 4, 0, 5]\<rparr> 0 = Some False"
    by code_simp
  moreover have "heap_insert half_lt 0 \<lparr>m_keys = [-1, 2, 3, 4, 6, 8], m_indices = [0, 0, 1, 2, 3, 0, 4, 0, 5]\<rparr>
     = Some \<lparr>m_keys = [-1, 0, 3, 2, 6, 8, 4], m_indices = [1, 0, 3, 2, 6, 0, 4, 0, 5]\<rparr>"
    by code_simp
  moreover have "erase half_lt 0 \<lparr>m_keys = [-1, 0, 3, 2, 6, 8, 4], m_indices = [1, 0, 3, 2, 6, 0, 4, 0, 5]\<rparr>
     = Some \<lparr>m_keys = [-1, 3, 4, 2, 6, 8], m_indices = [0, 0, 3, 1, 2, 0, 4, 0, 5]\<rparr>"
    by code_simp
  ultimately show ?thesis by (simp add: half_lt_def)
qed

text \<open>
  Claim C6, amended. For every heap state \<open>H\<close> that satisfies the heap invariant under
  a comparator (a strict weak order) for which no two distinct present keys tie, and
  every key \<open>k\<close> in range and not present in \<open>H\<close>, \<open>insert(k)\<close> followed immediately
  by \<open>erase(k)\<close> returns and yields a heap whose position array and index array are
  identical, element for element, to those of \<open>H\<close>.
\<close>

theorem insert_erase_round_trip:
  assumes "strict_weak_order lt" "heap_inv lt h" "no_ties lt h"
    and "is_valid_value h k" "contains h k = Some False"
  shows "\<exists>h1 h2. heap_insert lt k h = Some h1 \<and> erase lt k h1 = Some h2 \<and>
           m_keys h2 = m_keys h \<and> m_indices h2 = m_indices h"
proof -
  note swo = assms(1) and inv = assms(2) and nt = assms(3) and v = assms(4) and c = assms(5)
  have wf: "well_formed h" and ord: "heap_order lt h" using inv by (simp_all add: heap_inv_def)
  have ab: "m_indices h ! nat k = 0" using c v by (simp add: contains_False_iff)
  have ne: "m_keys h \<noteq> []" using wf by (simp add: well_formed_def)
  let ?n = "length (m_keys h)"
  let ?g = "pushed h k"
  have n1: "1 \<le> ?n" using ne by (cases "m_keys h") simp_all
  have e: "heap_insert lt k h = move_up_loop lt k ?n ?g"
    using c v by (simp add: heap_insert_def pushed_def Let_def move_up_def)
  have wfg: "well_formed ?g" by (rule well_formed_pushed[OF wf v ab])
  have fs: "fill ?g ?n k = ?g" using fill_self[OF wfg n1] by (simp add: pushed_def)
  have "\<exists>h3 h4. move_up_loop lt k ?n ?g = Some h3 \<and> erase lt k h3 = Some h4 \<and> m_keys h4 = m_keys h"
  proof (rule insert_erase_path[OF swo ord wf nt below_refl n1 refl])
    show "length (m_keys ?g) = Suc ?n" by (simp add: pushed_def)
    show "shifted (m_keys h) ?n ?n (m_keys ?g)" using shifted_pushed[of "m_keys h" k] by (simp add: pushed_def)
    show "well_formed (fill ?g ?n k)" using wfg fs by simp
  qed
  then obtain h1 h2 where r: "heap_insert lt k h = Some h1" "erase lt k h1 = Some h2" "m_keys h2 = m_keys h"
    using e by auto
  from heap_insert_correct[OF swo inv v c] r(1)
  have i1: "heap_inv lt h1" "length (m_indices h1) = length (m_indices h)"
    "mset (m_keys h1) = mset (m_keys h) + {#k#}" "m_keys h1 ! 0 = m_keys h ! 0" by auto
  have "0 \<le> k" using v by (simp add: is_valid_value_def)
  moreover have "k \<in> present h1" using present_add[OF ne i1(3,4)] by simp
  ultimately have c1: "contains h1 k = Some True"
    using contains_present[of h1 k] i1(1) by (simp add: heap_inv_def)
  from erase_correct[OF swo i1(1) c1] r(2) have rm: "removed lt h1 k h2" by auto
  then have "well_formed h2" "length (m_indices h2) = length (m_indices h)"
    using i1(2) by (simp_all add: removed_def heap_inv_def)
  from index_unique[OF this(1) wf r(3) this(2)] r show ?thesis by blast
qed

theorem insert_erase_round_trip_witness:
  "strict_weak_order int_lt \<and> heap_inv int_lt \<lparr>m_keys = [-1, 1, 4, 3], m_indices = [0, 1, 0, 3, 2]\<rparr> \<and>
   no_ties int_lt \<lparr>m_keys = [-1, 1, 4, 3], m_indices = [0, 1, 0, 3, 2]\<rparr> \<and>
   is_valid_value \<lparr>m_keys = [-1, 1, 4, 3], m_indices = [0, 1, 0, 3, 2]\<rparr> 0 \<and>
   contains \<lparr>m_keys = [-1, 1, 4, 3], m_indices = [0, 1, 0, 3, 2]\<rparr> 0 = Some False \<and>
   heap_insert int_lt 0 \<lparr>m_keys = [-1, 1, 4, 3], m_indices = [0, 1, 0, 3, 2]\<rparr>
     = Some \<lparr>m_keys = [-1, 0, 1, 3, 4], m_indices = [1, 2, 0, 3, 4]\<rparr> \<and>
   erase int_lt 0 \<lparr>m_keys = [-1, 0, 1, 3, 4], m_indices = [1, 2, 0, 3, 4]\<rparr>
     = Some \<lparr>m_keys = [-1, 1, 4, 3], m_indices = [0, 1, 0, 3, 2]\<rparr>"
proof -
  let ?h = "\<lparr>m_keys = [-1, 1, 4, 3], m_indices = [0, 1, 0, 3, 2]\<rparr>"
  have nt: "no_ties int_lt ?h" by (auto simp: no_ties_def int_lt_def)
  have v: "is_valid_value ?h 0" by (simp add: is_valid_value_def)
  have c: "contains ?h 0 = Some False" by (simp add: contains_def)
  have i: "heap_insert int_lt 0 ?h = Some \<lparr>m_keys = [-1, 0, 1, 3, 4], m_indices = [1, 2, 0, 3, 4]\<rparr>"
    by code_simp
  from insert_erase_round_trip[OF swo_int_lt heap_inv_example nt v c]
  obtain h2 where "erase int_lt 0 \<lparr>m_keys = [-1, 0, 1, 3, 4], m_indices = [1, 2, 0, 3, 4]\<rparr> = Some h2"
    "m_keys h2 = m_keys ?h" "m_indices h2 = m_indices ?h"
    unfolding i by auto
  then have "erase int_lt 0 \<lparr>m_keys = [-1, 0, 1, 3, 4], m_indices = [1, 2, 0, 3, 4]\<rparr> = Some ?h"
    by (cases h2) simp
  with swo_int_lt heap_inv_example nt v c i show ?thesis by blast
qed

section \<open>Ties in the sift loops\<close>

lemma move_up_loop_stop:
  assumes "parent idx < length (m_keys h)" "parent idx = 0 \<or> \<not> lt key (m_keys h ! parent idx)"
  shows "move_up_loop lt key idx h = place h idx key"
  using assms by (subst move_up_loop.simps) (auto simp add: Let_def)

lemma min_child_is_child:
  "min_child lt h sz idx = left idx \<or> min_child lt h sz idx = right idx \<and> right idx < sz"
  by (simp add: min_child_def)

lemma move_up_stays:
  assumes wf: "well_formed h" and ord: "heap_order lt h" and idx: "1 \<le> idx" "idx < length (m_keys h)"
  shows "move_up lt idx h = Some h"
proof -
  let ?key = "m_keys h ! idx"
  have p: "parent idx < length (m_keys h)" using idx by (simp add: parent_def)
  have "parent idx = 0 \<or> \<not> lt ?key (m_keys h ! parent idx)"
  proof (cases "2 \<le> idx")
    case True
    then show ?thesis using heap_orderD[OF ord True idx(2)] by simp
  next
    case False
    then show ?thesis using idx by (simp add: parent_def)
  qed
  from move_up_loop_stop[of idx h lt ?key, OF p this]
  have "move_up_loop lt ?key idx h = place h idx ?key" .
  also have "\<dots> = Some (fill h idx ?key)"
    using well_formed_key_range[OF wf idx] idx by (simp add: place_eq)
  also have "\<dots> = Some h" by (simp add: fill_self[OF wf idx])
  finally show ?thesis using idx by (simp add: move_up_def)
qed

lemma move_down_stays:
  assumes wf: "well_formed h" and idx: "1 \<le> idx" "idx < length (m_keys h)"
    and ch: "\<forall>c. c < length (m_keys h) \<and> parent c = idx \<longrightarrow> lt (m_keys h ! idx) (m_keys h ! c)"
  shows "move_down lt idx h = Some h"
proof -
  let ?key = "m_keys h ! idx"
  let ?n = "length (m_keys h)"
  have pl: "place h idx ?key = Some h"
    using well_formed_key_range[OF wf idx] idx fill_self[OF wf idx] by (simp add: place_eq)
  have "move_down_loop lt ?key ?n idx h = place h idx ?key"
  proof (cases "?n \<le> left idx")
    case True
    then show ?thesis by (rule move_down_loop_leaf)
  next
    case False
    then have l: "left idx < ?n" by simp
    let ?mc = "min_child lt h ?n idx"
    have "?mc < ?n \<and> parent ?mc = idx"
      using min_child_is_child[of lt h ?n idx] l by (auto simp: parent_def left_def right_def)
    then have "lt ?key (m_keys h ! ?mc)" using ch by blast
    then show ?thesis using move_down_loop_inner[OF l refl, of lt ?key] by simp
  qed
  then show ?thesis using pl idx by (simp add: move_down_def)
qed

lemma reachable_tied:
  "reachable half_lt \<lparr>m_keys = [-1, 2, 3], m_indices = [0, 0, 1, 2]\<rparr> {2, 3}"
proof -
  have 0: "reachable half_lt (heap_init 4) {}" by (rule reachable.construct[OF swo_half_lt])
  have 1: "reachable half_lt \<lparr>m_keys = [-1, 2], m_indices = [0, 0, 1, 0]\<rparr> ({} \<union> {2})"
    by (rule reachable.insert[OF 0]) code_simp+
  have 2: "reachable half_lt \<lparr>m_keys = [-1, 2, 3], m_indices = [0, 0, 1, 2]\<rparr> ({} \<union> {2} \<union> {3})"
    by (rule reachable.insert[OF 1]) code_simp+
  have "{} \<union> {2} \<union> {3} = {2, 3::int}" by auto
  with 2 show ?thesis by simp
qed

lemma heap_inv_tied:
  "heap_inv half_lt \<lparr>m_keys = [-1, 2, 3], m_indices = [0, 0, 1, 2]\<rparr>"
  using reachable_sound[OF reachable_tied] by simp

text \<open>
  Claim C4: in both sift loops a tie never triggers a swap; the moving element stops
  where it is tied with the neighbour it is compared against. \<open>move_up\<close> does so: its
  loop ends on \<open>!less_than(key, parent_key)\<close>, hence also on a tie (\<open>move_up_loop_stop\<close>,
  \<open>move_up_stays\<close>). \<open>move_down\<close> does not: its loop ends on \<open>less_than(key, min_key)\<close>,
  which is false on a tie, so a key that is tied with its smaller child is exchanged
  with it. The heap below is reached by \<open>insert(2)\<close>, \<open>insert(3)\<close> on a heap of capacity
  4 under the comparator that orders keys by \<open>key / 2\<close>, a strict weak order for which 2
  and 3 are tied. It satisfies the invariant; \<open>move_up(2)\<close>, where 3 meets its tied
  parent 2, leaves it as it is, and \<open>move_down(1)\<close>, where 2 meets its tied child 3,
  exchanges the two keys.
\<close>

theorem sift_down_swaps_on_tie:
  "strict_weak_order half_lt \<and> \<not> half_lt 2 3 \<and> \<not> half_lt 3 2 \<and>
   reachable half_lt \<lparr>m_keys = [-1, 2, 3], m_indices = [0, 0, 1, 2]\<rparr> {2, 3} \<and>
   heap_inv half_lt \<lparr>m_keys = [-1, 2, 3], m_indices = [0, 0, 1, 2]\<rparr> \<and>
   move_up half_lt 2 \<lparr>m_keys = [-1, 2, 3], m_indices = [0, 0, 1, 2]\<rparr>
     = Some \<lparr>m_keys = [-1, 2, 3], m_indices = [0, 0, 1, 2]\<rparr> \<and>
   move_down half_lt 1 \<lparr>m_keys = [-1, 2, 3], m_indices = [0, 0, 1, 2]\<rparr>
     = Some \<lparr>m_keys = [-1, 3, 2], m_indices = [0, 0, 2, 1]\<rparr>"
proof -
  have "move_up half_lt 2 \<lparr>m_keys = [-1, 2, 3], m_indices = [0, 0, 1, 2]\<rparr>
     = Some \<lparr>m_keys = [-1, 2, 3], m_indices = [0, 0, 1, 2]\<rparr>"
    by code_simp
  moreover have "move_down half_lt 1 \<lparr>m_keys = [-1, 2, 3], m_indices = [0, 0, 1, 2]\<rparr>
     = Some \<lparr>m_keys = [-1, 3, 2], m_indices = [0, 0, 2, 1]\<rparr>"
    by code_simp
  ultimately show ?thesis
    using swo_half_lt reachable_tied heap_inv_tied by (simp add: half_lt_def)
qed

theorem sift_down_swaps_on_tie_witness:
  "move_up half_lt 2 \<lparr>m_keys = [-1, 2, 3], m_indices = [0, 0, 1, 2]\<rparr>
     = Some \<lparr>m_keys = [-1, 2, 3], m_indices = [0, 0, 1, 2]\<rparr> \<and>
   move_down half_lt 1 \<lparr>m_keys = [-1, 2, 3], m_indices = [0, 0, 1, 2]\<rparr>
     \<noteq> Some \<lparr>m_keys = [-1, 2, 3], m_indices = [0, 0, 1, 2]\<rparr>"
  using sift_down_swaps_on_tie by simp

section \<open>Re-prioritising a key whose priority did not change\<close>

lemma decreased_stays:
  assumes "heap_inv lt h" "contains h k = Some True"
  shows "decreased lt k h = Some h"
proof -
  have wf: "well_formed h" and ord: "heap_order lt h" using assms(1) by (simp_all add: heap_inv_def)
  note sl = contains_slot[OF wf assms(2)]
  show ?thesis using move_up_stays[OF wf ord sl(1,2)] assms(2) by (simp add: decreased_def)
qed

lemma increased_stays:
  assumes "heap_inv lt h" "contains h k = Some True"
    and "\<forall>c. c < length (m_keys h) \<and> parent c = m_indices h ! nat k \<longrightarrow> lt k (m_keys h ! c)"
  shows "increased lt k h = Some h"
proof -
  have wf: "well_formed h" using assms(1) by (simp add: heap_inv_def)
  note sl = contains_slot[OF wf assms(2)]
  show ?thesis
    using move_down_stays[OF wf sl(1,2), of lt] assms(2,3) sl(3) by (simp add: increased_def)
qed

text \<open>
  Claim C7: on a heap that satisfies the invariant, \<open>decreased(k)\<close> and \<open>increased(k)\<close>
  for a present key \<open>k\<close> whose priority has not changed leave the position array and
  the index array exactly unchanged. \<open>decreased\<close> does so on every such heap
  (\<open>decreased_stays\<close>), and \<open>increased\<close> does so when \<open>k\<close> sorts strictly before each of
  its children (\<open>increased_stays\<close>). When \<open>k\<close> is tied with its smaller child,
  \<open>increased(k)\<close> exchanges the two, because the loop of \<open>move_down\<close> ends on
  \<open>less_than(key, min_key)\<close>, which is false on a tie. In the heap reached by
  \<open>insert(2)\<close>, \<open>insert(3)\<close> on a heap of capacity 4 under the comparator that orders
  keys by \<open>key / 2\<close>, with no priority changed, \<open>decreased(2)\<close> and \<open>decreased(3)\<close> leave
  both arrays as they are and \<open>increased(2)\<close> changes both.
\<close>

theorem increased_moves_tied_key:
  "strict_weak_order half_lt \<and>
   reachable half_lt \<lparr>m_keys = [-1, 2, 3], m_indices = [0, 0, 1, 2]\<rparr> {2, 3} \<and>
   heap_inv half_lt \<lparr>m_keys = [-1, 2, 3], m_indices = [0, 0, 1, 2]\<rparr> \<and>
   contains \<lparr>m_keys = [-1, 2, 3], m_indices = [0, 0, 1, 2]\<rparr> 2 = Some True \<and>
   decreased half_lt 2 \<lparr>m_keys = [-1, 2, 3], m_indices = [0, 0, 1, 2]\<rparr>
     = Some \<lparr>m_keys = [-1, 2, 3], m_indices = [0, 0, 1, 2]\<rparr> \<and>
   decreased half_lt 3 \<lparr>m_keys = [-1, 2, 3], m_indices = [0, 0, 1, 2]\<rparr>
     = Some \<lparr>m_keys = [-1, 2, 3], m_indices = [0, 0, 1, 2]\<rparr> \<and>
   increased half_lt 2 \<lparr>m_keys = [-1, 2, 3], m_indices = [0, 0, 1, 2]\<rparr>
     = Some \<lparr>m_keys = [-1, 3, 2], m_indices = [0, 0, 2, 1]\<rparr> \<and>
   m_keys \<lparr>m_keys = [-1, 3, 2], m_indices = [0, 0, 2, 1]\<rparr>
     \<noteq> m_keys \<lparr>m_keys = [-1, 2, 3], m_indices = [0, 0, 1, 2]\<rparr> \<and>
   m_indices \<lparr>m_keys = [-1, 3, 2], m_indices = [0, 0, 2, 1]\<rparr>
     \<noteq> m_indices \<lparr>m_keys = [-1, 2, 3], m_indices = [0, 0, 1, 2]\<rparr>"
proof -
  have "contains \<lparr>m_keys = [-1, 2, 3], m_indices = [0, 0, 1, 2]\<rparr> 2 = Some True"
    by code_simp
  moreover have "decreased half_lt 2 \<lparr>m_keys = [-1, 2, 3], m_indices = [0, 0, 1, 2]\<rparr>
     = Some \<lparr>m_keys = [-1, 2, 3], m_indices = [0, 0, 1, 2]\<rparr>"
    by code_simp
  moreover have "decreased half_lt 3 \<lparr>m_keys = [-1, 2, 3], m_indices = [0, 0, 1, 2]\<rparr>
     = Some \<lparr>m_keys = [-1, 2, 3], m_indices = [0, 0, 1, 2]\<rparr>"
    by code_simp
  moreover have "increased half_lt 2 \<lparr>m_keys = [-1, 2, 3], m_indices = [0, 0, 1, 2]\<rparr>
     = Some \<lparr>m_keys = [-1, 3, 2], m_indices = [0, 0, 2, 1]\<rparr>"
    by code_simp
  ultimately show ?thesis
    using swo_half_lt reachable_tied heap_inv_tied by simp
qed

theorem increased_moves_tied_key_witness:
  "decreased half_lt 2 \<lparr>m_keys = [-1, 2, 3], m_indices = [0, 0, 1, 2]\<rparr>
     = Some \<lparr>m_keys = [-1, 2, 3], m_indices = [0, 0, 1, 2]\<rparr> \<and>
   increased half_lt 2 \<lparr>m_keys = [-1, 2, 3], m_indices = [0, 0, 1, 2]\<rparr>
     \<noteq> Some \<lparr>m_keys = [-1, 2, 3], m_indices = [0, 0, 1, 2]\<rparr>"
  using increased_moves_tied_key by simp

section \<open>Capacity and size\<close>

lemma distinct_tl_keys:
  assumes wf: "well_formed h"
  shows "distinct (tl (m_keys h))"
proof -
  have ne: "m_keys h \<noteq> []" using wf by (simp add: well_formed_def)
  obtain x t where h: "m_keys h = x # t" using ne by (cases "m_keys h") auto
  have "\<And>i j. i < length t \<Longrightarrow> j < length t \<Longrightarrow> i \<noteq> j \<Longrightarrow> t ! i \<noteq> t ! j"
    using well_formed_distinct[OF wf, of "Suc _" "Suc _"] by (simp add: h)
  then show ?thesis by (simp add: distinct_conv_nth h)
qed

lemma contained_keys:
  assumes wf: "well_formed h"
  shows "{k. contains h k = Some True} = present h"
proof (intro set_eqI iffI)
  fix k assume "k \<in> {k. contains h k = Some True}"
  then have c: "contains h k = Some True" by simp
  then have "0 \<le> k" by (simp add: contains_True_iff)
  from contains_present[OF wf this] c show "k \<in> present h" by simp
next
  fix k assume p: "k \<in> present h"
  then obtain i where i: "1 \<le> i" "i < length (m_keys h)" "k = m_keys h ! i"
    unfolding present_nth by blast
  have "0 \<le> k" using well_formed_key_range(1)[OF wf i(1,2)] i(3) by simp
  from contains_present[OF wf this] p show "k \<in> {k. contains h k = Some True}" by simp
qed

text \<open>
  Claim C9. For every heap, \<open>size()\<close> is the length of the index array: the capacity
  given at construction, raised by \<open>reserve\<close>, and not the number of elements. On a
  heap that satisfies the invariant, \<open>insert\<close>, \<open>erase\<close>, \<open>erase_min\<close> (under their
  preconditions) and \<open>reset\<close> leave \<open>size()\<close> unchanged, and the number of keys
  present is the length of the position array minus one.
\<close>

theorem size_is_capacity:
  assumes "strict_weak_order lt" "heap_inv lt h"
  shows "heap_size h = length (m_indices h) \<and> heap_size h = get_bounds h \<and>
         heap_size (heap_init s) = s \<and>
         heap_size (reserve n h) = (if n > int (heap_size h) then nat n else heap_size h) \<and>
         (is_valid_value h key \<and> contains h key = Some False \<longrightarrow>
            (\<exists>h'. heap_insert lt key h = Some h' \<and> heap_size h' = heap_size h \<and>
                  length (m_keys h') - 1 = Suc (length (m_keys h) - 1))) \<and>
         (contains h key = Some True \<longrightarrow>
            (\<exists>h'. erase lt key h = Some h' \<and> heap_size h' = heap_size h \<and>
                  Suc (length (m_keys h') - 1) = length (m_keys h) - 1)) \<and>
         (\<not> heap_empty h \<longrightarrow>
            (\<exists>r h'. erase_min lt h = Some (r, h') \<and> heap_size h' = heap_size h \<and>
                  Suc (length (m_keys h') - 1) = length (m_keys h) - 1)) \<and>
         heap_size (reset h) = heap_size h \<and>
         card {k. contains h k = Some True} = length (m_keys h) - 1"
proof -
  have wf: "well_formed h" using assms(2) by (simp add: heap_inv_def)
  have ne: "m_keys h \<noteq> []" using wf by (simp add: well_formed_def)
  have a: "heap_size (heap_init s) = s"
    by (simp add: heap_size_def heap_init_def set_bounds_def resize_def)
  have b: "heap_size (reserve n h) = (if n > int (heap_size h) then nat n else heap_size h)"
    by (simp add: heap_size_def reserve_def set_bounds_def resize_def)
  have c: "\<exists>h'. heap_insert lt key h = Some h' \<and> heap_size h' = heap_size h \<and>
                  length (m_keys h') - 1 = Suc (length (m_keys h) - 1)"
    if "is_valid_value h key \<and> contains h key = Some False"
    using heap_insert_correct[OF assms, of key] that ne by (auto simp: heap_size_def)
  have d: "\<exists>h'. erase lt key h = Some h' \<and> heap_size h' = heap_size h \<and>
                  Suc (length (m_keys h') - 1) = length (m_keys h) - 1"
    if "contains h key = Some True"
  proof -
    from erase_correct[OF assms that] obtain h' where h': "erase lt key h = Some h'" "removed lt h key h'"
      by blast
    then have "m_keys h' \<noteq> []" by (simp add: removed_def heap_inv_def well_formed_def)
    then have "0 < length (m_keys h')" by simp
    with h' show ?thesis by (auto simp: removed_def heap_size_def)
  qed
  have e: "\<exists>r h'. erase_min lt h = Some (r, h') \<and> heap_size h' = heap_size h \<and>
                  Suc (length (m_keys h') - 1) = length (m_keys h) - 1"
    if "\<not> heap_empty h"
  proof -
    from erase_min_correct[OF assms that] obtain h' where
      h': "erase_min lt h = Some (m_keys h ! 1, h')" "removed lt h (m_keys h ! 1) h'"
      by blast
    then have "m_keys h' \<noteq> []" by (simp add: removed_def heap_inv_def well_formed_def)
    then have "0 < length (m_keys h')" by simp
    with h' show ?thesis by (auto simp: removed_def heap_size_def)
  qed
  have f: "heap_size (reset h) = heap_size h"
    by (simp add: heap_size_def reset_def)
  have "card {k. contains h k = Some True} = card (set (tl (m_keys h)))"
    by (simp add: contained_keys[OF wf] present_def)
  also have "\<dots> = length (tl (m_keys h))" by (rule distinct_card[OF distinct_tl_keys[OF wf]])
  finally have g: "card {k. contains h k = Some True} = length (m_keys h) - 1" by simp
  from a b c d e f g show ?thesis by (simp add: heap_size_def get_bounds_def)
qed

theorem size_is_capacity_witness:
  "strict_weak_order int_lt \<and> heap_inv int_lt \<lparr>m_keys = [-1, 1, 4, 3], m_indices = [0, 1, 0, 3, 2]\<rparr> \<and>
   heap_size \<lparr>m_keys = [-1, 1, 4, 3], m_indices = [0, 1, 0, 3, 2]\<rparr> = 5 \<and>
   card {k. contains \<lparr>m_keys = [-1, 1, 4, 3], m_indices = [0, 1, 0, 3, 2]\<rparr> k = Some True} = 3 \<and>
   (\<exists>h'. heap_insert int_lt 0 \<lparr>m_keys = [-1, 1, 4, 3], m_indices = [0, 1, 0, 3, 2]\<rparr> = Some h' \<and>
         heap_size h' = 5)"
proof -
  let ?h = "\<lparr>m_keys = [-1, 1, 4, 3], m_indices = [0, 1, 0, 3, 2]\<rparr>"
  have v: "is_valid_value ?h 0 \<and> contains ?h 0 = Some False"
    by (simp add: is_valid_value_def contains_def)
  note t = size_is_capacity[OF swo_int_lt heap_inv_example, of 0 0 0]
  have "heap_size ?h = 5" using t by simp
  moreover have "card {k. contains ?h k = Some True} = 3" using t by simp
  moreover have "\<exists>h'. heap_insert int_lt 0 ?h = Some h' \<and> heap_size h' = 5"
    using t v \<open>heap_size ?h = 5\<close> by auto
  ultimately show ?thesis using swo_int_lt heap_inv_example by blast
qed

section \<open>The invariant check of the source\<close>

lemma check_invariant_core_unfold:
  "check_invariant_core lt h idx =
     (if idx < length (m_keys h) then
        (if \<not> slot_ok lt h idx then Some False
         else
           Option.bind (check_invariant_core lt h (left idx)) (\<lambda>l.
             if \<not> l then Some False
             else Option.bind (check_invariant_core lt h (right idx)) (\<lambda>r.
               if \<not> r then Some False else Some True)))
      else Some True)"
  by (subst check_invariant_core.simps) (auto simp: slot_ok_def)

lemma check_invariant_core_subtree:
  "1 \<le> i \<Longrightarrow> check_invariant_core lt h i
      = Some (\<forall>j. j < length (m_keys h) \<and> below i j \<longrightarrow> slot_ok lt h j)"
proof (induction "length (m_keys h) - i" arbitrary: i rule: less_induct)
  case less
  let ?P = "\<lambda>i. \<forall>j. j < length (m_keys h) \<and> below i j \<longrightarrow> slot_ok lt h j"
  show ?case
  proof (cases "i < length (m_keys h)")
    case False
    have "?P i"
    proof (intro allI impI)
      fix j assume j: "j < length (m_keys h) \<and> below i j"
      then have "i \<le> j" using below_le[of i j] by simp
      with j False have False by simp
      then show "slot_ok lt h j" ..
    qed
    then show ?thesis using False by (subst check_invariant_core_unfold) simp
  next
    case True
    have "length (m_keys h) - left i < length (m_keys h) - i" "1 \<le> left i"
      "length (m_keys h) - right i < length (m_keys h) - i" "1 \<le> right i"
      using True less.prems by (auto simp: left_def right_def)
    from less.hyps[OF this(1,2)] less.hyps[OF this(3,4)]
    have l: "check_invariant_core lt h (left i) = Some (?P (left i))"
      and r: "check_invariant_core lt h (right i) = Some (?P (right i))" by simp_all
    have split: "?P i \<longleftrightarrow> slot_ok lt h i \<and> ?P (left i) \<and> ?P (right i)"
    proof
      assume p: "?P i"
      have "slot_ok lt h i" using p True below_refl[of i] by blast
      moreover have "?P (left i)" using p below_child[of i] by blast
      moreover have "?P (right i)" using p below_child[of i] by blast
      ultimately show "slot_ok lt h i \<and> ?P (left i) \<and> ?P (right i)" by blast
    next
      assume a: "slot_ok lt h i \<and> ?P (left i) \<and> ?P (right i)"
      show "?P i"
      proof (intro allI impI)
        fix j assume j: "j < length (m_keys h) \<and> below i j"
        then consider "j = i" | "below (left i) j" | "below (right i) j"
          using below_iff[of i j] by blast
        then show "slot_ok lt h j" using a j by cases blast+
      qed
    qed
    show ?thesis
      by (subst check_invariant_core_unfold) (simp add: True l r split)
  qed
qed

lemma check_invariant_iff:
  "check_invariant lt h = Some (index_ok h \<and> heap_order lt h)"
proof -
  have "(\<forall>j. j < length (m_keys h) \<and> below 1 j \<longrightarrow> slot_ok lt h j) \<longleftrightarrow> index_ok h \<and> heap_order lt h"
  proof
    assume a: "\<forall>j. j < length (m_keys h) \<and> below 1 j \<longrightarrow> slot_ok lt h j"
    have s: "slot_ok lt h j" if "1 \<le> j" "j < length (m_keys h)" for j
      using a that below_root[of j] by blast
    have "index_ok h" by (rule index_okI) (use s in \<open>simp add: slot_ok_def\<close>)
    moreover have "heap_order lt h"
      unfolding heap_order_def
    proof
      fix i assume "i \<in> {2..<length (m_keys h)}"
      then have i: "2 \<le> i" "i < length (m_keys h)" by simp_all
      then have "parent i \<noteq> 0" by (simp add: parent_def)
      then show "\<not> lt (m_keys h ! i) (m_keys h ! parent i)"
        using s[of i] i by (simp add: slot_ok_def)
    qed
    ultimately show "index_ok h \<and> heap_order lt h" by simp
  next
    assume a: "index_ok h \<and> heap_order lt h"
    show "\<forall>j. j < length (m_keys h) \<and> below 1 j \<longrightarrow> slot_ok lt h j"
    proof (intro allI impI)
      fix j assume j: "j < length (m_keys h) \<and> below 1 j"
      then have j1: "1 \<le> j" using below_le[of 1 j] by simp
      have "parent j = 0 \<or> \<not> lt (m_keys h ! j) (m_keys h ! parent j)"
      proof (cases "2 \<le> j")
        case True
        then show ?thesis using a j heap_orderD[of lt h j] by simp
      next
        case False
        then show ?thesis using j1 by (simp add: parent_def)
      qed
      then show "slot_ok lt h j" using a j j1 index_okD[of h j] by (simp add: slot_ok_def)
    qed
  qed
  then show ?thesis by (simp add: check_invariant_def check_invariant_core_subtree)
qed

lemma reachable_check_invariant:
  "reachable lt h S \<Longrightarrow> check_invariant lt h = Some True"
  using reachable_sound[of lt h S] by (simp add: check_invariant_iff heap_inv_def well_formed_def)

end
